theory Spec2Isabelle
  imports Complex_Main "HOL-Library.Char_ord" "HOL-Library.List_Lexorder" "HOL-Library.Multiset"
    "HOL-Library.Word"
begin

section \<open>Tables\<close>

text \<open>
  The helpers of \<^verbatim>\<open>kinda_tidy.py\<close> are methods attached to a pandas DataFrame. A table is
  modelled column-wise, as pandas stores it: a list of row labels (the index) and the
  named columns. A column is numeric, a column of strings (pandas' object dtype), or
  categorical: its entries (\<open>None\<close> is the missing entry NaN) and its ordered levels.
  A numeric column holds 64-bit signed integers (numpy's \<^verbatim>\<open>int64\<close>, the dtype of the
  value columns of the tests), whose arithmetic wraps around; columns of floats are
  outside the model. Strings are compared as Python compares them, lexicographically by code point.

  The column header is either a flat index of names or a multi-level index whose
  entries are tuples of labels (strings or integers).
\<close>

datatype error = KeyError | ValueError | TypeError | Unsupported

type_synonym int64 = "64 word"

datatype column =
    NumCol "int64 list"
  | StrCol "string list"
  | CatCol "string option list" "string list"

datatype label = LStr string | LInt int

datatype col_table =
    Index "(string \<times> column) list"
  | MultiIndex "(label list \<times> column) list"

record table =
  index :: "nat list"
  columns :: col_table

text \<open>
  \<^verbatim>\<open>df[c]\<close>: the column named \<open>c\<close>, or KeyError. Selecting by a plain name in a
  multi-level header is outside the model (\<open>Unsupported\<close>).
\<close>

definition getitem :: "table \<Rightarrow> string \<Rightarrow> error + column" where
  "getitem df c =
     (case columns df of
        MultiIndex _ \<Rightarrow> Inl Unsupported
      | Index cs \<Rightarrow> (case map_of cs c of None \<Rightarrow> Inl KeyError | Some col \<Rightarrow> Inr col))"

text \<open>
  \<^verbatim>\<open>df[c] = col\<close>: the column is replaced where it stands, or appended when the name is
  new. \<^verbatim>\<open>df.loc[:, c] = col\<close> does the same when the column \<open>c\<close> holds strings and \<open>col\<close> is
  categorical, as in \<^verbatim>\<open>_set_categorical\<close>; where it is applied to a categorical column,
  in \<^verbatim>\<open>_reverse_categories\<close>, it is modelled by \<open>loc_setitem\<close> below.
\<close>

fun assign_col :: "string \<Rightarrow> column \<Rightarrow> (string \<times> column) list \<Rightarrow> (string \<times> column) list" where
  "assign_col c col [] = [(c, col)]"
| "assign_col c col (p # ps) = (if fst p = c then (c, col) # ps else p # assign_col c col ps)"

definition setitem :: "table \<Rightarrow> string \<Rightarrow> column \<Rightarrow> table" where
  "setitem df c col =
     (case columns df of
        MultiIndex ms \<Rightarrow> df
      | Index cs \<Rightarrow> df\<lparr>columns := Index (assign_col c col cs)\<rparr>)"

text \<open>\<^verbatim>\<open>df[mask]\<close>: the rows where the mask is true, in every column and in the index.\<close>

definition select :: "bool list \<Rightarrow> 'a list \<Rightarrow> 'a list" where
  "select bs xs = map snd (filter fst (zip bs xs))"

fun col_select :: "bool list \<Rightarrow> column \<Rightarrow> column" where
  "col_select m (NumCol xs) = NumCol (select m xs)"
| "col_select m (StrCol xs) = StrCol (select m xs)"
| "col_select m (CatCol xs cats) = CatCol (select m xs) cats"

fun map_cols :: "(column \<Rightarrow> column) \<Rightarrow> col_table \<Rightarrow> col_table" where
  "map_cols f (Index cs) = Index (map (\<lambda>p. (fst p, f (snd p))) cs)"
| "map_cols f (MultiIndex ms) = MultiIndex (map (\<lambda>p. (fst p, f (snd p))) ms)"

definition boolean_index :: "table \<Rightarrow> bool list \<Rightarrow> table" where
  "boolean_index df bs =
     \<lparr>index = select bs (index df), columns = map_cols (col_select bs) (columns df)\<rparr>"

definition nrows :: "table \<Rightarrow> nat" where
  "nrows df = length (index df)"

section \<open>Categorical releveling\<close>

text \<open>
  \<^verbatim>\<open>Series.astype(str)\<close> on a categorical column: every entry as a string; the missing
  entry becomes the string \<^verbatim>\<open>nan\<close>.
\<close>

definition astype_str :: "string option list \<Rightarrow> string list" where
  "astype_str vs = map (\<lambda>v. case v of None \<Rightarrow> ''nan'' | Some s \<Rightarrow> s) vs"

text \<open>
  \<^verbatim>\<open>pd.Categorical(xs)\<close>: the levels are the distinct entries, sorted.
  \<^verbatim>\<open>pd.Categorical(xs, categories=cs)\<close>: the levels are \<open>cs\<close> in the order given, which
  must not repeat a level (ValueError); an entry that is no level becomes missing.
\<close>

definition Categorical :: "string list \<Rightarrow> column" where
  "Categorical xs = CatCol (map Some xs) (sort (remdups xs))"

definition Categorical_with :: "string list \<Rightarrow> string list \<Rightarrow> error + column" where
  "Categorical_with xs cs =
     (if distinct cs then Inr (CatCol (map (\<lambda>x. if x \<in> set cs then Some x else None) xs) cs)
      else Inl ValueError)"

text \<open>
  \<^verbatim>\<open>df.groupby(k).agg({v: f}).reset_index()\<close>: one row per distinct key, the keys sorted
  ascending, with \<open>f\<close> applied to the entries of \<open>v\<close> in the rows of that key.
\<close>

definition group_rows :: "'k list \<Rightarrow> 'v list \<Rightarrow> 'k \<Rightarrow> 'v list" where
  "group_rows ks vs k = map snd (filter (\<lambda>p. fst p = k) (zip ks vs))"

definition groupby_agg :: "string list \<Rightarrow> 'v list \<Rightarrow> ('v list \<Rightarrow> 'a) \<Rightarrow> (string \<times> 'a) list" where
  "groupby_agg ks vs f = map (\<lambda>k. (k, f (group_rows ks vs k))) (sort (remdups ks))"

text \<open>
  \<^verbatim>\<open>sort_values(v, ascending=False)\<close> sorts with numpy's quicksort, which is not stable:
  the rows come out in non-increasing order of their entry in \<open>v\<close>, and pandas promises
  nothing about the order of rows with equal entries. The sort is therefore a parameter
  of the model, \<open>sort_values\<close>, and \<open>sorts_descending\<close> says what pandas promises of it: the
  rows are the same, rearranged, and their entries do not increase. Two sorts that keep
  the promise: one leaves rows with equal entries in their order, one reverses them.
\<close>

type_synonym 'a sort_values = "(string \<times> 'a) list \<Rightarrow> (string \<times> 'a) list"

definition sorts_descending :: "('a::linorder) sort_values \<Rightarrow> bool" where
  "sorts_descending sort_values =
     (\<forall>ps. mset (sort_values ps) = mset ps \<and> sorted (rev (map snd (sort_values ps))))"

definition stable_descending :: "('a::linorder) sort_values" where
  "stable_descending ps = rev (sort_key snd (rev ps))"


text \<open>
  The default aggregator \<^verbatim>\<open>np.sum\<close>: on \<^verbatim>\<open>int64\<close> entries the sum is an \<^verbatim>\<open>int64\<close>, computed
  with wrap-around; it is given here by its value as a signed integer. An aggregator is
  any function from the entries of a group to a linearly ordered type.
\<close>

definition np_sum :: "int64 list \<Rightarrow> int" where
  "np_sum xs = sint (sum_list xs)"

text \<open>The inner function \<^verbatim>\<open>sort_for_categories\<close> of \<^verbatim>\<open>_set_categorical\<close>.\<close>

definition sort_for_categories ::
  "'a sort_values \<Rightarrow> string \<Rightarrow> string \<Rightarrow> (int64 list \<Rightarrow> 'a) \<Rightarrow> table \<Rightarrow> error + (string \<times> 'a) list" where
  "sort_for_categories sort_values category_col value_col aggregator df =
     (case getitem df category_col of
        Inl e \<Rightarrow> Inl e
      | Inr kc \<Rightarrow>
          (case getitem df value_col of
             Inl e \<Rightarrow> Inl e
           | Inr vc \<Rightarrow>
               (case (kc, vc) of
                  (StrCol ks, NumCol vs) \<Rightarrow> Inr (sort_values (groupby_agg ks vs aggregator))
                | _ \<Rightarrow> Inl Unsupported)))"

text \<open>\<^verbatim>\<open>xs[:n]\<close> with Python's rules: \<open>None\<close> takes everything, a negative \<open>n\<close> counts from the end.\<close>

definition slice_to :: "int option \<Rightarrow> 'a list \<Rightarrow> 'a list" where
  "slice_to n xs =
     (case n of
        None \<Rightarrow> xs
      | Some k \<Rightarrow> if 0 \<le> k then take (nat k) xs else take (length xs - nat (- k)) xs)"

text \<open>Python's truth test of an optional integer and of an optional string.\<close>

definition truthy_int :: "int option \<Rightarrow> bool" where
  "truthy_int n = (case n of None \<Rightarrow> False | Some k \<Rightarrow> k \<noteq> 0)"

definition truthy_str :: "string option \<Rightarrow> bool" where
  "truthy_str s = (case s of None \<Rightarrow> False | Some k \<Rightarrow> k \<noteq> [])"

text \<open>
  \<^verbatim>\<open>_set_categorical\<close>. The copy of the input is the table itself here; the aliasing is
  modelled separately, on a store. A category column that is numeric is outside the model.
\<close>

definition set_categorical ::
  "'a sort_values \<Rightarrow> table \<Rightarrow> string \<Rightarrow> string option \<Rightarrow> (int64 list \<Rightarrow> 'a) \<Rightarrow> bool \<Rightarrow> int option
     \<Rightarrow> bool \<Rightarrow> string \<Rightarrow> error + table" where
  "set_categorical sort_values self category_col value_col aggregator reverse top_n keep_other other_label =
     (case getitem self category_col of
        Inl e \<Rightarrow> Inl e
      | Inr c0 \<Rightarrow>
          (let res = (case c0 of
                        CatCol vs cats \<Rightarrow> setitem self category_col (StrCol (astype_str vs))
                      | _ \<Rightarrow> self)
           in case getitem res category_col of
                Inr (StrCol ks) \<Rightarrow>
                  (if \<not> truthy_str value_col then Inr (setitem res category_col (Categorical ks))
                   else
                     (case sort_for_categories sort_values category_col (the value_col) aggregator res of
                        Inl e \<Rightarrow> Inl e
                      | Inr sort_data \<Rightarrow>
                          (let categories = slice_to top_n (map fst sort_data);
                               res2 =
                                 (if truthy_int top_n then
                                    (if keep_other then
                                       setitem res category_col
                                         (StrCol (map (\<lambda>k. if k \<in> set categories then k else other_label) ks))
                                     else boolean_index res (map (\<lambda>k. k \<in> set categories) ks))
                                  else res)
                           in case sort_for_categories sort_values category_col (the value_col) aggregator res2 of
                                Inl e \<Rightarrow> Inl e
                              | Inr fin \<Rightarrow>
                                  (let final_categories =
                                         (if reverse then rev (map fst fin) else map fst fin)
                                   in case getitem res2 category_col of
                                        Inr (StrCol ks2) \<Rightarrow>
                                          (case Categorical_with ks2 final_categories of
                                             Inl e \<Rightarrow> Inl e
                                           | Inr cc \<Rightarrow> Inr (setitem res2 category_col cc))
                                      | Inr _ \<Rightarrow> Inl Unsupported
                                      | Inl e \<Rightarrow> Inl e))))
              | Inr _ \<Rightarrow> Inl Unsupported
              | Inl e \<Rightarrow> Inl e))"

text \<open>
  The strings a label column holds when \<^verbatim>\<open>_set_categorical\<close> reads it: the entries of a
  string column, the recast entries of a categorical one.
\<close>

definition labels_of :: "column \<Rightarrow> string list option" where
  "labels_of col =
     (case col of
        StrCol ks \<Rightarrow> Some ks
      | CatCol vs cats \<Rightarrow> Some (astype_str vs)
      | NumCol xs \<Rightarrow> None)"

text \<open>
  The tables of the repository's tests (\<^verbatim>\<open>input_df1\<close>, \<^verbatim>\<open>input_df2\<close>), a table with two
  levels of equal sum, and a table on which the sum of a group leaves the range of
  \<^verbatim>\<open>int64\<close>.
\<close>

definition df1 :: table where
  "df1 = \<lparr>index = [0, 1, 2, 3, 4, 5],
          columns = Index [(''group'', StrCol [''a'', ''a'', ''a'', ''b'', ''b'', ''c'']),
                           (''value'', NumCol [1, 2, 3, 4, 5, 7])]\<rparr>"




text \<open>
  The level order \<^verbatim>\<open>sort_for_categories(df)[category_col]\<close> yields for a table whose label
  column holds \<open>ks\<close> and whose value column holds \<open>vs\<close>.
\<close>

definition level_order :: "'a sort_values \<Rightarrow> ('v list \<Rightarrow> 'a) \<Rightarrow> string list \<Rightarrow> 'v list \<Rightarrow> string list" where
  "level_order sort_values aggregator ks vs = map fst (sort_values (groupby_agg ks vs aggregator))"



section \<open>Flattening a multi-level header\<close>

text \<open>
  Python's \<^verbatim>\<open>str\<close> on a header label: a string is itself, an integer is its decimal
  numeral.
\<close>

fun str_nat :: "nat \<Rightarrow> string" where
  "str_nat n = (if n < 10 then [char_of (48 + n)] else str_nat (n div 10) @ [char_of (48 + n mod 10)])"

definition str_int :: "int \<Rightarrow> string" where
  "str_int i = (if i < 0 then CHR ''-'' # str_nat (nat (- i)) else str_nat (nat i))"

fun py_str :: "label \<Rightarrow> string" where
  "py_str (LStr s) = s"
| "py_str (LInt i) = str_int i"

definition list_values_to_string :: "label list \<Rightarrow> string list" where
  "list_values_to_string input_list = map py_str input_list"

text \<open>\<^verbatim>\<open>sep.join(xs)\<close>, and \<^verbatim>\<open>s.strip(chars)\<close>, which removes from both ends every character that occurs in \<open>chars\<close>.\<close>

fun join :: "string \<Rightarrow> string list \<Rightarrow> string" where
  "join sep [] = []"
| "join sep [x] = x"
| "join sep (x # y # ys) = x @ sep @ join sep (y # ys)"

definition strip :: "string \<Rightarrow> string \<Rightarrow> string" where
  "strip chars s =
     rev (dropWhile (\<lambda>c. c \<in> set chars) (rev (dropWhile (\<lambda>c. c \<in> set chars) s)))"

text \<open>
  \<^verbatim>\<open>_flatten_columns\<close>: a table with a flat header is returned as it is; otherwise every
  header tuple becomes one name.
\<close>

definition flatten_columns :: "table \<Rightarrow> string \<Rightarrow> table" where
  "flatten_columns self sep =
     (case columns self of
        Index cs \<Rightarrow> self
      | MultiIndex ms \<Rightarrow>
          self\<lparr>columns :=
            Index (map (\<lambda>p. (strip sep (join sep (list_values_to_string (fst p))), snd p)) ms)\<rparr>)"

section \<open>Reversing and pruning levels, selecting rows\<close>

text \<open>
  The optional argument \<^verbatim>\<open>target_columns\<close>: absent, one name, or a list of names.
  \<^verbatim>\<open>not target_columns\<close> holds for \<open>None\<close>, the empty string and the empty list, and
  then every column of the table is a target; \<^verbatim>\<open>_adapt_scalar_to_vector\<close> makes one name
  a list of one.
\<close>

datatype targets = NoTargets | OneTarget string | Targets "string list"

definition column_names :: "table \<Rightarrow> error + string list" where
  "column_names df =
     (case columns df of Index cs \<Rightarrow> Inr (map fst cs) | MultiIndex ms \<Rightarrow> Inl Unsupported)"

definition target_columns_of :: "table \<Rightarrow> targets \<Rightarrow> error + string list" where
  "target_columns_of res tc =
     (case tc of
        NoTargets \<Rightarrow> column_names res
      | OneTarget c \<Rightarrow> if c = [] then column_names res else Inr [c]
      | Targets cs \<Rightarrow> if cs = [] then column_names res else Inr cs)"

text \<open>
  \<^verbatim>\<open>pd.Categorical(col, categories=cs)\<close> on a column that is categorical already: the
  entries are kept where they are levels of \<open>cs\<close>, and \<open>cs\<close> must not repeat a level.
\<close>

definition recode :: "string option list \<Rightarrow> string list \<Rightarrow> error + column" where
  "recode entries cs =
     (if distinct cs
      then Inr (CatCol (map (\<lambda>e. case e of None \<Rightarrow> None
                                   | Some x \<Rightarrow> if x \<in> set cs then Some x else None) entries) cs)
      else Inl ValueError)"

text \<open>
  \<^verbatim>\<open>res.loc[:, c] = col\<close> on a column \<open>c\<close> that is categorical, with a categorical \<open>col\<close>.
  What pandas does here has changed between its versions. The pandas the repository's
  tests were written for puts \<open>col\<close> in the place of the column (\<open>Replace\<close>): the levels
  become those of \<open>col\<close>. Later versions of pandas 1 (1.5.3 is one) write the entries of
  \<open>col\<close> into the column that is there when the two have the same set of levels, which
  is the same dtype for pandas (\<open>InPlace\<close>): the entries become those of \<open>col\<close> and the
  levels stay as they are. Both are modelled; which one applies is a parameter. In all
  other cases the column is replaced.
\<close>

datatype full_slice = Replace | InPlace

definition loc_setitem :: "full_slice \<Rightarrow> table \<Rightarrow> string \<Rightarrow> column \<Rightarrow> table" where
  "loc_setitem fs res c col =
     (case fs of
        Replace \<Rightarrow> setitem res c col
      | InPlace \<Rightarrow>
          (case (getitem res c, col) of
             (Inr (CatCol old_entries old_cats), CatCol entries cats) \<Rightarrow>
               if set cats = set old_cats then setitem res c (CatCol entries old_cats)
               else setitem res c col
           | _ \<Rightarrow> setitem res c col))"

text \<open>
  The loop of \<^verbatim>\<open>_reverse_categories\<close> over the target columns, and the function. A name
  in a multi-level header is outside the model (\<open>Unsupported\<close>).
\<close>

fun reverse_loop :: "full_slice \<Rightarrow> table \<Rightarrow> string list \<Rightarrow> error + table" where
  "reverse_loop fs res [] = Inr res"
| "reverse_loop fs res (c # cs) =
     (case getitem res c of
        Inl e \<Rightarrow> Inl e
      | Inr (CatCol entries cats) \<Rightarrow>
          (case recode entries (rev cats) of
             Inl e \<Rightarrow> Inl e
           | Inr col \<Rightarrow> reverse_loop fs (loc_setitem fs res c col) cs)
      | Inr _ \<Rightarrow> reverse_loop fs res cs)"

definition reverse_categories :: "full_slice \<Rightarrow> table \<Rightarrow> targets \<Rightarrow> error + table" where
  "reverse_categories fs self tc =
     (case target_columns_of self tc of
        Inl e \<Rightarrow> Inl e
      | Inr cs \<Rightarrow> reverse_loop fs self cs)"

text \<open>
  \<^verbatim>\<open>_drop_unused_levels\<close>: \<^verbatim>\<open>remove_unused_categories\<close> keeps, in their order, the levels
  that occur among the entries.
\<close>

definition remove_unused_categories :: "string option list \<Rightarrow> string list \<Rightarrow> column" where
  "remove_unused_categories entries cats = CatCol entries (filter (\<lambda>l. Some l \<in> set entries) cats)"

fun drop_loop :: "table \<Rightarrow> string list \<Rightarrow> error + table" where
  "drop_loop res [] = Inr res"
| "drop_loop res (c # cs) =
     (case getitem res c of
        Inl e \<Rightarrow> Inl e
      | Inr (CatCol entries cats) \<Rightarrow>
          drop_loop (setitem res c (remove_unused_categories entries cats)) cs
      | Inr _ \<Rightarrow> drop_loop res cs)"

definition drop_unused_levels :: "table \<Rightarrow> targets \<Rightarrow> error + table" where
  "drop_unused_levels self tc =
     (case target_columns_of self tc of
        Inl e \<Rightarrow> Inl e
      | Inr cs \<Rightarrow> drop_loop self cs)"

text \<open>
  \<^verbatim>\<open>_select_rows\<close>: the predicate sees the whole table and returns one truth value per
  row; pandas refuses a mask of another length.
\<close>

definition select_rows :: "table \<Rightarrow> (table \<Rightarrow> bool list) \<Rightarrow> error + table" where
  "select_rows self predicate =
     (if length (predicate self) = nrows self then Inr (boolean_index self (predicate self))
      else Inl ValueError)"

text \<open>
  A table is well formed when every categorical column lists each level once and holds
  only entries that are levels, as pandas keeps them.
\<close>

fun wf_column :: "column \<Rightarrow> bool" where
  "wf_column (CatCol entries cats) =
     (distinct cats \<and> list_all (\<lambda>e. case e of None \<Rightarrow> True | Some x \<Rightarrow> x \<in> set cats) entries)"
| "wf_column _ = True"

fun wf_columns :: "col_table \<Rightarrow> bool" where
  "wf_columns (Index cs) = list_all (\<lambda>p. wf_column (snd p)) cs"
| "wf_columns (MultiIndex ms) = list_all (\<lambda>p. wf_column (snd p)) ms"

definition wf_table :: "table \<Rightarrow> bool" where
  "wf_table df = wf_columns (columns df)"

text \<open>
  The tables of the tests of these helpers: \<^verbatim>\<open>input_df3\<close>, the table the test expects of
  reversing its levels, and a two-level header.
\<close>

definition df3 :: table where
  "df3 = \<lparr>index = [0, 1, 2, 3, 4, 5],
          columns = Index
            [(''group1'', CatCol (map Some [''a'', ''a'', ''a'', ''b'', ''b'', ''c'']) [''a'', ''b'', ''c'', ''unused'']),
             (''group2'', CatCol (map Some [''a'', ''a'', ''a'', ''b'', ''b'', ''c'']) [''a'', ''b'', ''c'', ''unused'']),
             (''value'', NumCol [1, 2, 3, 4, 5, 7])]\<rparr>"

definition df3_reversed :: table where
  "df3_reversed = \<lparr>index = [0, 1, 2, 3, 4, 5],
          columns = Index
            [(''group1'', CatCol (map Some [''a'', ''a'', ''a'', ''b'', ''b'', ''c'']) [''unused'', ''c'', ''b'', ''a'']),
             (''group2'', CatCol (map Some [''a'', ''a'', ''a'', ''b'', ''b'', ''c'']) [''unused'', ''c'', ''b'', ''a'']),
             (''value'', NumCol [1, 2, 3, 4, 5, 7])]\<rparr>"

definition df_multi :: table where
  "df_multi = \<lparr>index = [0, 1, 2],
               columns = MultiIndex
                 [([LStr ''col1_level1'', LInt 1], NumCol [1, 2, 3]),
                  ([LStr ''col2_level1'', LStr ''col2_level2''], NumCol [1, 2, 3])]\<rparr>"

text \<open>
  For the proofs: reversing the levels of one column, and changing the column of a given
  name where it stands.
\<close>

fun rev_col :: "column \<Rightarrow> column" where
  "rev_col (CatCol entries cats) = CatCol entries (rev cats)"
| "rev_col col = col"

definition modify :: "string \<Rightarrow> (column \<Rightarrow> column) \<Rightarrow> (string \<times> column) list \<Rightarrow> (string \<times> column) list" where
  "modify c f cs = (case map_of cs c of None \<Rightarrow> cs | Some col \<Rightarrow> assign_col c (f col) cs)"

section \<open>Tables as objects: the store\<close>

text \<open>
  Whether a helper changes its input is a question about objects, not values. Here a
  table is an object in a store, named by its position; \<^verbatim>\<open>df.copy()\<close> (a deep copy, the
  default) and \<^verbatim>\<open>df[mask]\<close> allocate a new object, and an assignment to a column changes the
  object it is applied to. A deep copy shares no column with its original, so the store
  holds tables by value. The helpers are written again in this style, statement by
  statement; each returns the object it returns in Python, or the error, and the store.
\<close>

type_synonym store = "table list"

definition h_copy :: "store \<Rightarrow> nat \<Rightarrow> nat \<times> store" where
  "h_copy s r = (length s, s @ [s ! r])"

definition h_setitem :: "store \<Rightarrow> nat \<Rightarrow> string \<Rightarrow> column \<Rightarrow> store" where
  "h_setitem s r c col = s[r := setitem (s ! r) c col]"

definition h_boolean_index :: "store \<Rightarrow> nat \<Rightarrow> bool list \<Rightarrow> nat \<times> store" where
  "h_boolean_index s r bs = (length s, s @ [boolean_index (s ! r) bs])"

definition h_loc_setitem :: "full_slice \<Rightarrow> store \<Rightarrow> nat \<Rightarrow> string \<Rightarrow> column \<Rightarrow> store" where
  "h_loc_setitem fs s r c col = s[r := loc_setitem fs (s ! r) c col]"

text \<open>
  \<^verbatim>\<open>_set_categorical\<close>, lines 106 to 111: the rows outside \<open>categories\<close> are relabelled in
  \<open>res\<close>, or \<open>res\<close> becomes a copy of the selected rows.
\<close>

definition truncate_st ::
  "store \<Rightarrow> nat \<Rightarrow> string \<Rightarrow> string list \<Rightarrow> string list \<Rightarrow> bool \<Rightarrow> string \<Rightarrow> nat \<times> store" where
  "truncate_st s res category_col ks categories keep_other other_label =
     (if keep_other then
        (res, h_setitem s res category_col
                (StrCol (map (\<lambda>k. if k \<in> set categories then k else other_label) ks)))
      else
        (let (selected, s1) = h_boolean_index s res (map (\<lambda>k. k \<in> set categories) ks)
         in h_copy s1 selected))"

text \<open>\<^verbatim>\<open>_set_categorical\<close>, lines 113 to 120: the final level order, assigned to \<open>res\<close>.\<close>

definition relevel_st ::
  "'a sort_values \<Rightarrow> store \<Rightarrow> nat \<Rightarrow> string \<Rightarrow> string \<Rightarrow> (int64 list \<Rightarrow> 'a) \<Rightarrow> bool
     \<Rightarrow> (error + nat) \<times> store" where
  "relevel_st sort_values s res category_col value_col aggregator reverse =
     (case sort_for_categories sort_values category_col value_col aggregator (s ! res) of
        Inl e \<Rightarrow> (Inl e, s)
      | Inr fin \<Rightarrow>
          (let final_categories = (if reverse then rev (map fst fin) else map fst fin)
           in case getitem (s ! res) category_col of
                Inr (StrCol ks2) \<Rightarrow>
                  (case Categorical_with ks2 final_categories of
                     Inl e \<Rightarrow> (Inl e, s)
                   | Inr cc \<Rightarrow> (Inr res, h_setitem s res category_col cc))
              | Inr _ \<Rightarrow> (Inl Unsupported, s)
              | Inl e \<Rightarrow> (Inl e, s)))"

definition set_categorical_st ::
  "'a sort_values \<Rightarrow> store \<Rightarrow> nat \<Rightarrow> string \<Rightarrow> string option \<Rightarrow> (int64 list \<Rightarrow> 'a) \<Rightarrow> bool \<Rightarrow> int option
     \<Rightarrow> bool \<Rightarrow> string \<Rightarrow> (error + nat) \<times> store" where
  "set_categorical_st sort_values s self category_col value_col aggregator reverse top_n keep_other other_label =
     (let (res, s1) = h_copy s self
      in case getitem (s1 ! res) category_col of
           Inl e \<Rightarrow> (Inl e, s1)
         | Inr c0 \<Rightarrow>
             (let s2 = (case c0 of
                          CatCol vs cats \<Rightarrow> h_setitem s1 res category_col (StrCol (astype_str vs))
                        | _ \<Rightarrow> s1)
              in case getitem (s2 ! res) category_col of
                   Inr (StrCol ks) \<Rightarrow>
                     (if \<not> truthy_str value_col
                      then (Inr res, h_setitem s2 res category_col (Categorical ks))
                      else
                        (case sort_for_categories sort_values category_col (the value_col) aggregator (s2 ! res) of
                           Inl e \<Rightarrow> (Inl e, s2)
                         | Inr sort_data \<Rightarrow>
                             (let categories = slice_to top_n (map fst sort_data);
                                  (res2, s3) =
                                    (if truthy_int top_n
                                     then truncate_st s2 res category_col ks categories keep_other other_label
                                     else (res, s2))
                              in relevel_st sort_values s3 res2 category_col (the value_col) aggregator reverse)))
                 | Inr _ \<Rightarrow> (Inl Unsupported, s2)
                 | Inl e \<Rightarrow> (Inl e, s2)))"

text \<open>\<^verbatim>\<open>_reverse_categories\<close> and \<^verbatim>\<open>_drop_unused_levels\<close>: the loops change \<open>res\<close> in place.\<close>

fun reverse_loop_st :: "full_slice \<Rightarrow> store \<Rightarrow> nat \<Rightarrow> string list \<Rightarrow> error option \<times> store" where
  "reverse_loop_st fs s res [] = (None, s)"
| "reverse_loop_st fs s res (c # cs) =
     (case getitem (s ! res) c of
        Inl e \<Rightarrow> (Some e, s)
      | Inr (CatCol entries cats) \<Rightarrow>
          (case recode entries (rev cats) of
             Inl e \<Rightarrow> (Some e, s)
           | Inr col \<Rightarrow> reverse_loop_st fs (h_loc_setitem fs s res c col) res cs)
      | Inr _ \<Rightarrow> reverse_loop_st fs s res cs)"

definition reverse_categories_st :: "full_slice \<Rightarrow> store \<Rightarrow> nat \<Rightarrow> targets \<Rightarrow> (error + nat) \<times> store" where
  "reverse_categories_st fs s self tc =
     (let (res, s1) = h_copy s self
      in case target_columns_of (s1 ! res) tc of
           Inl e \<Rightarrow> (Inl e, s1)
         | Inr cs \<Rightarrow>
             (case reverse_loop_st fs s1 res cs of
                (Some e, s2) \<Rightarrow> (Inl e, s2)
              | (None, s2) \<Rightarrow> (Inr res, s2)))"

fun drop_loop_st :: "store \<Rightarrow> nat \<Rightarrow> string list \<Rightarrow> error option \<times> store" where
  "drop_loop_st s res [] = (None, s)"
| "drop_loop_st s res (c # cs) =
     (case getitem (s ! res) c of
        Inl e \<Rightarrow> (Some e, s)
      | Inr (CatCol entries cats) \<Rightarrow>
          drop_loop_st (h_setitem s res c (remove_unused_categories entries cats)) res cs
      | Inr _ \<Rightarrow> drop_loop_st s res cs)"

definition drop_unused_levels_st :: "store \<Rightarrow> nat \<Rightarrow> targets \<Rightarrow> (error + nat) \<times> store" where
  "drop_unused_levels_st s self tc =
     (let (res, s1) = h_copy s self
      in case target_columns_of (s1 ! res) tc of
           Inl e \<Rightarrow> (Inl e, s1)
         | Inr cs \<Rightarrow>
             (case drop_loop_st s1 res cs of
                (Some e, s2) \<Rightarrow> (Inl e, s2)
              | (None, s2) \<Rightarrow> (Inr res, s2)))"

text \<open>\<^verbatim>\<open>_select_rows\<close>: \<^verbatim>\<open>self[predicate(self)].copy()\<close>.\<close>

definition select_rows_st :: "store \<Rightarrow> nat \<Rightarrow> (table \<Rightarrow> bool list) \<Rightarrow> (error + nat) \<times> store" where
  "select_rows_st s self predicate =
     (if length (predicate (s ! self)) = nrows (s ! self)
      then (let (selected, s1) = h_boolean_index s self (predicate (s ! self));
                (res, s2) = h_copy s1 selected
            in (Inr res, s2))
      else (Inl ValueError, s))"

text \<open>
  What a call leaves of the store \<open>s0\<close> it started from: every object of \<open>s0\<close> is in the
  store \<open>s\<close> after the call, at its place and unchanged; and the object returned is new.
\<close>

definition unchanged :: "store \<Rightarrow> store \<Rightarrow> bool" where
  "unchanged s0 s = (length s0 \<le> length s \<and> take (length s0) s = s0)"

definition is_new :: "store \<Rightarrow> store \<Rightarrow> error + nat \<Rightarrow> bool" where
  "is_new s0 s r = (case r of Inl e \<Rightarrow> True | Inr res \<Rightarrow> length s0 \<le> res \<and> res < length s)"

text \<open>The table an outcome denotes, for comparing with the helpers on values.\<close>

definition outcome :: "(error + nat) \<times> store \<Rightarrow> error + table" where
  "outcome p = (case fst p of Inl e \<Rightarrow> Inl e | Inr res \<Rightarrow> Inr (snd p ! res))"

text \<open>
  A call on the object \<open>self\<close> of the store \<open>s\<close> leaves its input when, after it, every
  object of \<open>s\<close> is as before, \<open>self\<close> among them, and the object returned is a new one.
\<close>

definition leaves_input :: "store \<Rightarrow> nat \<Rightarrow> (error + nat) \<times> store \<Rightarrow> bool" where
  "leaves_input s self p = (unchanged s (snd p) \<and> snd p ! self = s ! self \<and> is_new s (snd p) (fst p))"

section \<open>Columns and rows: basic facts\<close>

lemma map_of_assign_col_same: "map_of (assign_col c col cs) c = Some col"
  by (induction cs) auto

lemma map_of_assign_col_other: "c' \<noteq> c \<Longrightarrow> map_of (assign_col c col cs) c' = map_of cs c'"
  by (induction cs) auto

lemma assign_col_twice: "assign_col c col2 (assign_col c col1 cs) = assign_col c col2 cs"
  by (induction cs) auto

lemma getitem_Inr_Index:
  "getitem df c = Inr col \<Longrightarrow> \<exists>cs. columns df = Index cs \<and> map_of cs c = Some col"
  by (auto simp: getitem_def split: col_table.splits option.splits)

lemma getitem_setitem_same: "getitem df c = Inr col0 \<Longrightarrow> getitem (setitem df c col) c = Inr col"
  by (auto simp: getitem_def setitem_def map_of_assign_col_same split: col_table.splits option.splits)

lemma getitem_setitem_other: "c' \<noteq> c \<Longrightarrow> getitem (setitem df c col) c' = getitem df c'"
  by (auto simp: getitem_def setitem_def map_of_assign_col_other split: col_table.splits option.splits)

lemma setitem_twice: "setitem (setitem df c col1) c col2 = setitem df c col2"
  by (auto simp: setitem_def assign_col_twice split: col_table.splits)

lemma length_select_le: "length (select m xs) \<le> length xs"
  unfolding select_def
  by (metis length_filter_le length_map length_zip min.cobounded2 order_trans)
section \<open>The level order\<close>

lemma sorts_descending_stable: "sorts_descending stable_descending"
  by (simp add: sorts_descending_def stable_descending_def rev_map)


lemma sort_values_mset: "sorts_descending sv \<Longrightarrow> mset (sv ps) = mset ps"
  by (simp add: sorts_descending_def)

lemma sort_values_pairs: "sorts_descending sv \<Longrightarrow> set (sv ps) = set ps"
  by (metis sort_values_mset set_mset_mset)


lemma map_fst_groupby_agg: "map fst (groupby_agg ks vs f) = sort (remdups ks)"
  by (simp add: groupby_agg_def comp_def)


lemma set_level_order: "sorts_descending sv \<Longrightarrow> set (level_order sv f ks vs) = set ks"
proof -
  assume sd: "sorts_descending sv"
  have "set (level_order sv f ks vs) = fst ` set (groupby_agg ks vs f)"
    by (simp add: level_order_def sort_values_pairs [OF sd])
  also have "\<dots> = set (map fst (groupby_agg ks vs f))" by simp
  also have "\<dots> = set ks" by (simp only: map_fst_groupby_agg) simp
  finally show ?thesis .
qed

lemma distinct_level_order: "sorts_descending sv \<Longrightarrow> distinct (level_order sv f ks vs)"
proof -
  assume sd: "sorts_descending sv"
  have "mset (level_order sv f ks vs) = mset (map fst (groupby_agg ks vs f))"
    by (simp add: level_order_def sort_values_mset [OF sd])
  moreover have "distinct (map fst (groupby_agg ks vs f))"
    by (simp only: map_fst_groupby_agg) simp
  ultimately show ?thesis by (metis mset_eq_imp_distinct_iff)
qed





section \<open>Releveling by a value column\<close>

lemma getitem_boolean_index:
  "getitem (boolean_index df m) c =
     (case getitem df c of Inl e \<Rightarrow> Inl e | Inr col \<Rightarrow> Inr (col_select m col))"
proof (cases "columns df")
  case (Index cs)
  have "map_of (map (\<lambda>p. (fst p, col_select m (snd p))) cs) c = map_option (col_select m) (map_of cs c)"
    by (induction cs) auto
  with Index show ?thesis
    by (simp add: getitem_def boolean_index_def split: option.splits)
next
  case (MultiIndex ms)
  then show ?thesis by (simp add: getitem_def boolean_index_def)
qed

lemma assign_col_map:
  "map (\<lambda>p. (fst p, f (snd p))) (assign_col c col cs) = assign_col c (f col) (map (\<lambda>p. (fst p, f (snd p))) cs)"
  by (induction cs) auto

lemma boolean_index_setitem:
  "boolean_index (setitem df c col) m = setitem (boolean_index df m) c (col_select m col)"
  by (cases "columns df") (simp_all add: boolean_index_def setitem_def assign_col_map)



lemma nrows_boolean_index: "nrows (boolean_index df m) \<le> nrows df"
  by (simp add: nrows_def boolean_index_def length_select_le)


lemma sort_for_categories_Inr:
  "getitem df c = Inr (StrCol ks) \<Longrightarrow> getitem df v = Inr (NumCol vs) \<Longrightarrow>
   sort_for_categories sv c v agg df = Inr (sv (groupby_agg ks vs agg))"
  by (simp add: sort_for_categories_def)

lemma Categorical_with_levels:
  "distinct fin \<Longrightarrow> set fin = set ks \<Longrightarrow> Categorical_with ks fin = Inr (CatCol (map Some ks) fin)"
  by (simp add: Categorical_with_def)

lemma Categorical_with_level_order:
  assumes "sorts_descending sv"
  shows "Categorical_with ks (level_order sv agg ks vs) = Inr (CatCol (map Some ks) (level_order sv agg ks vs))"
    and "Categorical_with ks (rev (level_order sv agg ks vs)) = Inr (CatCol (map Some ks) (rev (level_order sv agg ks vs)))"
  by (rule Categorical_with_levels; simp add: distinct_level_order [OF assms] set_level_order [OF assms])+

text \<open>The computation after the recast, on a table whose label column holds strings.\<close>

lemma set_categorical_str:
  assumes sd: "sorts_descending sv"
    and c: "getitem df c = Inr (StrCol ks)" and v: "getitem df v = Inr (NumCol vs)" and nz: "v \<noteq> []"
  shows "set_categorical sv df c (Some v) agg rv top_n keep other =
    (if truthy_int top_n then
       (if keep then
          Inr (setitem df c (CatCol
                 (map Some (map (\<lambda>k. if k \<in> set (slice_to top_n (level_order sv agg ks vs)) then k else other) ks))
                 (if rv then rev (level_order sv agg (map (\<lambda>k. if k \<in> set (slice_to top_n (level_order sv agg ks vs)) then k else other) ks) vs)
                  else level_order sv agg (map (\<lambda>k. if k \<in> set (slice_to top_n (level_order sv agg ks vs)) then k else other) ks) vs)))
        else
          Inr (setitem (boolean_index df (map (\<lambda>k. k \<in> set (slice_to top_n (level_order sv agg ks vs))) ks)) c
                (CatCol
                  (map Some (select (map (\<lambda>k. k \<in> set (slice_to top_n (level_order sv agg ks vs))) ks) ks))
                  (if rv then rev (level_order sv agg (select (map (\<lambda>k. k \<in> set (slice_to top_n (level_order sv agg ks vs))) ks) ks)
                                     (select (map (\<lambda>k. k \<in> set (slice_to top_n (level_order sv agg ks vs))) ks) vs))
                   else level_order sv agg (select (map (\<lambda>k. k \<in> set (slice_to top_n (level_order sv agg ks vs))) ks) ks)
                                     (select (map (\<lambda>k. k \<in> set (slice_to top_n (level_order sv agg ks vs))) ks) vs)))))
     else Inr (setitem df c (CatCol (map Some ks)
                 (if rv then rev (level_order sv agg ks vs) else level_order sv agg ks vs))))"
proof -
  have cv: "c \<noteq> v" using c v by auto
  have ts: "truthy_str (Some v)" using nz by (simp add: truthy_str_def)
  have s1: "sort_for_categories sv c v agg df = Inr (sv (groupby_agg ks vs agg))"
    by (rule sort_for_categories_Inr [OF c v])
  define cats where "cats = slice_to top_n (level_order sv agg ks vs)"
  show ?thesis
  proof (cases "truthy_int top_n")
    case False
    then show ?thesis
      using c ts s1
      by (simp add: Categorical_with_level_order [OF sd] set_categorical_def level_order_def [symmetric] Let_def)
  next
    case True
    show ?thesis
    proof (cases keep)
      case True
      define ks2 where "ks2 = map (\<lambda>k. if k \<in> set cats then k else other) ks"
      have c2: "getitem (setitem df c (StrCol ks2)) c = Inr (StrCol ks2)"
        using c by (simp add: getitem_setitem_same)
      have v2: "getitem (setitem df c (StrCol ks2)) v = Inr (NumCol vs)"
        using v cv by (simp add: getitem_setitem_other)
      have s2: "sort_for_categories sv c v agg (setitem df c (StrCol ks2)) = Inr (sv (groupby_agg ks2 vs agg))"
        by (rule sort_for_categories_Inr [OF c2 v2])
      show ?thesis
        using c ts s1 \<open>truthy_int top_n\<close> True c2 s2
        by (simp add: Categorical_with_level_order [OF sd] set_categorical_def level_order_def [symmetric] Let_def
            cats_def [symmetric] ks2_def [symmetric] setitem_twice)
    next
      case False
      define m where "m = map (\<lambda>k. k \<in> set cats) ks"
      have c2: "getitem (boolean_index df m) c = Inr (StrCol (select m ks))"
        using c by (simp add: getitem_boolean_index)
      have v2: "getitem (boolean_index df m) v = Inr (NumCol (select m vs))"
        using v by (simp add: getitem_boolean_index)
      have s2: "sort_for_categories sv c v agg (boolean_index df m)
                  = Inr (sv (groupby_agg (select m ks) (select m vs) agg))"
        by (rule sort_for_categories_Inr [OF c2 v2])
      show ?thesis
        using c ts s1 \<open>truthy_int top_n\<close> False c2 s2
        by (simp add: Categorical_with_level_order [OF sd] set_categorical_def level_order_def [symmetric] Let_def
            cats_def [symmetric] m_def [symmetric])
    qed
  qed
qed

section \<open>Truncation to the top levels\<close>

lemma set_categorical_recast:
  assumes "getitem self c = Inr (CatCol vals cats)"
  shows "set_categorical sv self c vc agg rv top_n keep other
           = set_categorical sv (setitem self c (StrCol (astype_str vals))) c vc agg rv top_n keep other"
proof -
  have "getitem (setitem self c (StrCol (astype_str vals))) c = Inr (StrCol (astype_str vals))"
    using assms by (simp add: getitem_setitem_same)
  then show ?thesis using assms by (simp add: set_categorical_def)
qed

lemma zip_select:
  "zip (filter P ks) (select (map P ks) vs) = filter (\<lambda>p. P (fst p)) (zip ks vs)"
proof (induction ks arbitrary: vs)
  case Nil
  then show ?case by (simp add: select_def)
next
  case (Cons k ks)
  show ?case
  proof (cases vs)
    case Nil
    then show ?thesis by (simp add: select_def)
  next
    case (Cons w ws)
    with Cons.IH [of ws] show ?thesis by (simp add: select_def)
  qed
qed

lemma group_rows_select:
  "P k \<Longrightarrow> group_rows (filter P ks) (select (map P ks) vs) k = group_rows ks vs k"
proof -
  assume "P k"
  then have "filter (\<lambda>p. fst p = k) (filter (\<lambda>p. P (fst p)) (zip ks vs)) = filter (\<lambda>p. fst p = k) (zip ks vs)"
    by (auto intro: filter_cong)
  then show ?thesis by (simp only: group_rows_def zip_select)
qed

lemma groupby_agg_filter:
  "groupby_agg (filter P ks) (select (map P ks) vs) f = filter (\<lambda>p. P (fst p)) (groupby_agg ks vs f)"
proof -
  have "sort (remdups (filter P ks)) = filter P (sort (remdups ks))"
    by (simp add: remdups_filter filter_sort)
  then show ?thesis
    by (simp add: groupby_agg_def filter_map comp_def group_rows_select cong: map_cong)
qed

lemma filter_take_distinct: "distinct xs \<Longrightarrow> filter (\<lambda>x. x \<in> set (take n xs)) xs = take n xs"
proof -
  assume d: "distinct xs"
  let ?P = "\<lambda>x. x \<in> set (take n xs)"
  from d have "distinct (take n xs @ drop n xs)" by simp
  then have dis: "set (take n xs) \<inter> set (drop n xs) = {}"
    by (simp only: distinct_append)
  have "filter ?P xs = filter ?P (take n xs) @ filter ?P (drop n xs)"
    by (metis append_take_drop_id filter_append)
  moreover have "filter ?P (take n xs) = take n xs" by simp
  moreover have "filter ?P (drop n xs) = []"
    using dis by (auto simp: filter_empty_conv)
  ultimately show ?thesis by simp
qed




lemma set_categorical_value:
  assumes sd: "sorts_descending sv"
    and g: "getitem self c = Inr col" and l: "labels_of col = Some ks"
    and v: "getitem self v = Inr (NumCol vs)" and nz: "v \<noteq> []"
  shows "set_categorical sv self c (Some v) agg rv top_n keep other =
    (if truthy_int top_n then
       (if keep then
          Inr (setitem self c (CatCol
                 (map Some (map (\<lambda>k. if k \<in> set (slice_to top_n (level_order sv agg ks vs)) then k else other) ks))
                 (if rv then rev (level_order sv agg (map (\<lambda>k. if k \<in> set (slice_to top_n (level_order sv agg ks vs)) then k else other) ks) vs)
                  else level_order sv agg (map (\<lambda>k. if k \<in> set (slice_to top_n (level_order sv agg ks vs)) then k else other) ks) vs)))
        else
          Inr (setitem (boolean_index self (map (\<lambda>k. k \<in> set (slice_to top_n (level_order sv agg ks vs))) ks)) c
                (CatCol
                  (map Some (select (map (\<lambda>k. k \<in> set (slice_to top_n (level_order sv agg ks vs))) ks) ks))
                  (if rv then rev (level_order sv agg (select (map (\<lambda>k. k \<in> set (slice_to top_n (level_order sv agg ks vs))) ks) ks)
                                     (select (map (\<lambda>k. k \<in> set (slice_to top_n (level_order sv agg ks vs))) ks) vs))
                   else level_order sv agg (select (map (\<lambda>k. k \<in> set (slice_to top_n (level_order sv agg ks vs))) ks) ks)
                                     (select (map (\<lambda>k. k \<in> set (slice_to top_n (level_order sv agg ks vs))) ks) vs)))))
     else Inr (setitem self c (CatCol (map Some ks)
                 (if rv then rev (level_order sv agg ks vs) else level_order sv agg ks vs))))"
proof (cases col)
  case (NumCol xs)
  with l show ?thesis by (simp add: labels_of_def)
next
  case (StrCol xs)
  with l have "xs = ks" by (simp add: labels_of_def)
  with g StrCol have "getitem self c = Inr (StrCol ks)" by simp
  from set_categorical_str [OF sd this v nz] show ?thesis .
next
  case (CatCol vals cats)
  with l have ks: "ks = astype_str vals" by (simp add: labels_of_def)
  have cv: "c \<noteq> v" using g v CatCol by auto
  let ?df = "setitem self c (StrCol ks)"
  have c': "getitem ?df c = Inr (StrCol ks)" using g by (simp add: getitem_setitem_same)
  have v': "getitem ?df v = Inr (NumCol vs)" using v cv by (simp add: getitem_setitem_other)
  have r: "set_categorical sv self c (Some v) agg rv top_n keep other
             = set_categorical sv ?df c (Some v) agg rv top_n keep other"
    using set_categorical_recast [of self c vals cats sv] g CatCol ks by simp
  show ?thesis
    unfolding r set_categorical_str [OF sd c' v' nz]
    by (simp add: setitem_twice boolean_index_setitem)
qed

section \<open>The test tables\<close>

lemma df1_group: "getitem df1 ''group'' = Inr (StrCol [''a'', ''a'', ''a'', ''b'', ''b'', ''c''])"
  by (simp add: getitem_def df1_def)

lemma df1_value: "getitem df1 ''value'' = Inr (NumCol [1, 2, 3, 4, 5, 7])"
  by (simp add: getitem_def df1_def)



lemma labels_of_StrCol: "labels_of (StrCol ks) = Some ks"
  by (simp add: labels_of_def)

lemma df1_order:
  "level_order stable_descending np_sum [''a'', ''a'', ''a'', ''b'', ''b'', ''c''] [1, 2, 3, 4, 5, 7] = [''b'', ''c'', ''a'']"
  by code_simp

section \<open>Releveling without a value column\<close>

lemma set_categorical_no_value:
  assumes "getitem self c = Inr col" and "labels_of col = Some ks" and "\<not> truthy_str vc"
  shows "set_categorical sv self c vc agg rv top_n keep other = Inr (setitem self c (Categorical ks))"
proof (cases col)
  case (NumCol xs)
  with assms show ?thesis by (simp add: labels_of_def)
next
  case (StrCol xs)
  with assms show ?thesis by (simp add: labels_of_def set_categorical_def)
next
  case (CatCol vs cats)
  with assms have ks: "ks = astype_str vs" by (simp add: labels_of_def)
  from assms(1) CatCol
  have "getitem (setitem self c (StrCol (astype_str vs))) c = Inr (StrCol (astype_str vs))"
    by (simp add: getitem_setitem_same)
  with assms CatCol ks show ?thesis
    by (simp add: set_categorical_def setitem_twice)
qed


section \<open>The claims on releveling by a value column\<close>



















text \<open>
  Claim C3, as amended. When a numeric value column is given, the call with
  \<^verbatim>\<open>reverse=True\<close> returns the table of the call with \<^verbatim>\<open>reverse=False\<close> and the other
  arguments equal, with the same entries in the category column and the level order
  reversed; this holds whatever order the sort gives to levels of equal aggregate. When
  no value column is given, \<^verbatim>\<open>reverse\<close> is not looked at: both calls return
  the same table, with the levels in ascending order.
\<close>

theorem set_categorical_reverse:
  assumes "getitem self c = Inr col" and "labels_of col = Some ks"
  shows "(sorts_descending sv \<and> getitem self v = Inr (NumCol vs) \<and> v \<noteq> [] \<longrightarrow>
            (\<exists>t entries lv.
               set_categorical sv self c (Some v) agg False top_n keep other
                 = Inr (setitem t c (CatCol entries lv))
             \<and> set_categorical sv self c (Some v) agg True top_n keep other
                 = Inr (setitem t c (CatCol entries (rev lv)))))
       \<and> (\<not> truthy_str vc \<longrightarrow>
            set_categorical sv self c vc agg True top_n keep other
              = set_categorical sv self c vc agg False top_n keep other
          \<and> set_categorical sv self c vc agg True top_n keep other
              = Inr (setitem self c (CatCol (map Some ks) (sort (remdups ks)))))"
proof (intro conjI impI)
  assume a: "sorts_descending sv \<and> getitem self v = Inr (NumCol vs) \<and> v \<noteq> []"
  then have sd: "sorts_descending sv" and v: "getitem self v = Inr (NumCol vs)" and nz: "v \<noteq> []"
    by simp_all
  show "\<exists>t entries lv.
          set_categorical sv self c (Some v) agg False top_n keep other = Inr (setitem t c (CatCol entries lv))
        \<and> set_categorical sv self c (Some v) agg True top_n keep other = Inr (setitem t c (CatCol entries (rev lv)))"
    unfolding set_categorical_value [OF sd assms v nz]
    by (cases "truthy_int top_n"; cases keep) auto
next
  assume n: "\<not> truthy_str vc"
  show "set_categorical sv self c vc agg True top_n keep other
          = set_categorical sv self c vc agg False top_n keep other"
    by (simp add: set_categorical_no_value [OF assms n])
  show "set_categorical sv self c vc agg True top_n keep other
          = Inr (setitem self c (CatCol (map Some ks) (sort (remdups ks))))"
    by (simp add: set_categorical_no_value [OF assms n] Categorical_def)
qed

theorem set_categorical_reverse_witness:
  "set_categorical stable_descending df1 ''group'' (Some ''value'') np_sum False (Some 2) True ''_other''
     = Inr (setitem df1 ''group''
         (CatCol (map Some [''_other'', ''_other'', ''_other'', ''b'', ''b'', ''c''])
            [''b'', ''c'', ''_other'']))
   \<and> set_categorical stable_descending df1 ''group'' (Some ''value'') np_sum True (Some 2) True ''_other''
     = Inr (setitem df1 ''group''
         (CatCol (map Some [''_other'', ''_other'', ''_other'', ''b'', ''b'', ''c''])
            (rev [''b'', ''c'', ''_other''])))
   \<and> (\<exists>t entries lv.
         set_categorical stable_descending df1 ''group'' (Some ''value'') np_sum False (Some 2) True ''_other''
           = Inr (setitem t ''group'' (CatCol entries lv))
       \<and> set_categorical stable_descending df1 ''group'' (Some ''value'') np_sum True (Some 2) True ''_other''
           = Inr (setitem t ''group'' (CatCol entries (rev lv))))
   \<and> set_categorical stable_descending df1 ''group'' None np_sum True (Some 2) True ''_other''
     = set_categorical stable_descending df1 ''group'' None np_sum False (Some 2) True ''_other''"
proof -
  have nz: "''value'' \<noteq> []" by simp
  have t: "\<not> truthy_str None" by (simp add: truthy_str_def)
  have ti: "truthy_int (Some 2)" by (simp add: truthy_int_def)
  have k: "slice_to (Some 2) [''b'', ''c'', ''a''] = [''b'', ''c'']"
    by (simp add: slice_to_def)
  have o: "level_order stable_descending np_sum [''_other'', ''_other'', ''_other'', ''b'', ''b'', ''c''] [1, 2, 3, 4, 5, 7]
             = [''b'', ''c'', ''_other'']"
    by code_simp
  have e: "\<And>rv. set_categorical stable_descending df1 ''group'' (Some ''value'') np_sum rv (Some 2) True ''_other''
     = Inr (setitem df1 ''group''
         (CatCol (map Some [''_other'', ''_other'', ''_other'', ''b'', ''b'', ''c''])
            (if rv then rev [''b'', ''c'', ''_other''] else [''b'', ''c'', ''_other''])))"
    unfolding set_categorical_value [OF sorts_descending_stable df1_group labels_of_StrCol df1_value nz]
    by (simp add: ti df1_order k o)
  from set_categorical_reverse [OF df1_group labels_of_StrCol,
      of stable_descending "''value''" "[1, 2, 3, 4, 5, 7]" np_sum "Some 2" True "''_other''" None]
  show ?thesis
    using df1_value nz t e [of True] e [of False] by (simp add: sorts_descending_stable)
qed

text \<open>
  Claim C3 as stated fails without a value column: on the test table both calls give the
  levels \<^verbatim>\<open>a, b, c\<close>, which is not its own reverse.
\<close>

theorem set_categorical_reverse_counterexample:
  "set_categorical stable_descending df1 ''group'' None np_sum False None False ''_other''
     = Inr (setitem df1 ''group''
         (CatCol (map Some [''a'', ''a'', ''a'', ''b'', ''b'', ''c'']) [''a'', ''b'', ''c'']))
   \<and> set_categorical stable_descending df1 ''group'' None np_sum True None False ''_other''
     = Inr (setitem df1 ''group''
         (CatCol (map Some [''a'', ''a'', ''a'', ''b'', ''b'', ''c'']) [''a'', ''b'', ''c'']))
   \<and> [''a'', ''b'', ''c''] \<noteq> rev [''a'', ''b'', ''c'']"
proof -
  have t: "\<not> truthy_str None" by (simp add: truthy_str_def)
  have s: "sort (remdups [''a'', ''a'', ''a'', ''b'', ''b'', ''c'']) = [''a'', ''b'', ''c'']"
    by code_simp
  show ?thesis
    by (simp add: set_categorical_no_value [OF df1_group labels_of_StrCol t] Categorical_def s)
qed

section \<open>Reversing the levels twice\<close>

lemma rev_col_twice: "rev_col (rev_col col) = col"
  by (cases col) simp_all

lemma wf_rev_col: "wf_column col \<Longrightarrow> wf_column (rev_col col)"
  by (cases col) simp_all

lemma recode_wf:
  "wf_column (CatCol entries cats) \<Longrightarrow> recode entries (rev cats) = Inr (CatCol entries (rev cats))"
  by (auto simp: recode_def list_all_iff map_idI split: option.splits intro!: map_idI)

lemma assign_col_same: "map_of cs c = Some col \<Longrightarrow> assign_col c col cs = cs"
  by (induction cs) (auto split: if_splits)

lemma assign_col_commute:
  "c \<noteq> c' \<Longrightarrow> map_of cs c = Some x \<Longrightarrow> map_of cs c' = Some y \<Longrightarrow>
   assign_col c a (assign_col c' b cs) = assign_col c' b (assign_col c a cs)"
  by (induction cs) (auto split: if_splits)

lemma map_of_modify:
  "map_of (modify c f cs) c' = (if c' = c then map_option f (map_of cs c) else map_of cs c')"
  by (auto simp: modify_def map_of_assign_col_same map_of_assign_col_other split: option.splits)

lemma modify_commute: "modify c f (modify c' f cs) = modify c' f (modify c f cs)"
proof (cases "c = c'")
  case True
  then show ?thesis by simp
next
  case False
  show ?thesis
  proof (cases "map_of cs c"; cases "map_of cs c'")
    fix x y assume "map_of cs c = Some x" "map_of cs c' = Some y"
    with False show ?thesis
      by (simp add: modify_def map_of_assign_col_other assign_col_commute)
  qed (use False in \<open>auto simp: modify_def map_of_assign_col_other\<close>)
qed

lemma modify_rev_twice: "modify c rev_col (modify c rev_col cs) = cs"
  by (cases "map_of cs c")
    (simp_all add: modify_def map_of_assign_col_same assign_col_twice rev_col_twice assign_col_same)

lemma modify_fold_commute:
  "modify c f (fold (\<lambda>c. modify c f) cs xs) = fold (\<lambda>c. modify c f) cs (modify c f xs)"
  by (induction cs arbitrary: xs) (simp_all add: modify_commute)

lemma fold_modify_rev_twice:
  "fold (\<lambda>c. modify c rev_col) cs (fold (\<lambda>c. modify c rev_col) cs xs) = xs"
proof (induction cs arbitrary: xs)
  case Nil
  then show ?case by simp
next
  case (Cons c cs)
  have "fold (\<lambda>c. modify c rev_col) (c # cs) (fold (\<lambda>c. modify c rev_col) (c # cs) xs)
          = fold (\<lambda>c. modify c rev_col) cs (modify c rev_col (fold (\<lambda>c. modify c rev_col) cs (modify c rev_col xs)))"
    by simp
  also have "\<dots> = fold (\<lambda>c. modify c rev_col) cs (fold (\<lambda>c. modify c rev_col) cs (modify c rev_col (modify c rev_col xs)))"
    by (simp only: modify_fold_commute)
  also have "\<dots> = xs" by (simp add: modify_rev_twice Cons.IH)
  finally show ?case .
qed

lemma names_assign_col: "map_of cs c = Some col \<Longrightarrow> map fst (assign_col c col' cs) = map fst cs"
  by (induction cs) (auto split: if_splits)

lemma names_modify: "map fst (modify c f cs) = map fst cs"
  by (auto simp: modify_def names_assign_col split: option.splits)

lemma names_fold_modify: "map fst (fold (\<lambda>c. modify c f) xs cs) = map fst cs"
  by (induction xs arbitrary: cs) (simp_all add: names_modify)

lemma wf_assign_col:
  "list_all (\<lambda>p. wf_column (snd p)) cs \<Longrightarrow> wf_column col \<Longrightarrow>
   list_all (\<lambda>p. wf_column (snd p)) (assign_col c col cs)"
  by (induction cs) auto

lemma wf_map_of:
  "list_all (\<lambda>p. wf_column (snd p)) cs \<Longrightarrow> map_of cs c = Some col \<Longrightarrow> wf_column col"
  by (induction cs) (auto split: if_splits)

lemma wf_modify_rev:
  "list_all (\<lambda>p. wf_column (snd p)) cs \<Longrightarrow> list_all (\<lambda>p. wf_column (snd p)) (modify c rev_col cs)"
  by (auto simp: modify_def wf_assign_col wf_rev_col wf_map_of split: option.splits)

lemma reverse_loop_Index:
  assumes "columns t = Index cs0" and "list_all (\<lambda>p. wf_column (snd p)) cs0"
  shows "reverse_loop Replace t cs =
           (if set cs \<subseteq> fst ` set cs0
            then Inr (t\<lparr>columns := Index (fold (\<lambda>c. modify c rev_col) cs cs0)\<rparr>)
            else Inl KeyError)"
  using assms
proof (induction cs arbitrary: t cs0)
  case Nil
  then show ?case by simp
next
  case (Cons c cs)
  show ?case
  proof (cases "map_of cs0 c")
    case None
    then have "c \<notin> fst ` set cs0" by (simp add: map_of_eq_None_iff)
    with None Cons.prems show ?thesis by (simp add: getitem_def)
  next
    case (Some col)
    then have cin: "c \<in> fst ` set cs0" by (metis map_of_eq_None_iff option.distinct(1))
    have wfc: "wf_column col" using Cons.prems(2) Some by (rule wf_map_of)
    have g: "getitem t c = Inr col" using Cons.prems(1) Some by (simp add: getitem_def)
    let ?t' = "t\<lparr>columns := Index (modify c rev_col cs0)\<rparr>"
    have c': "columns ?t' = Index (modify c rev_col cs0)" by simp
    have wf': "list_all (\<lambda>p. wf_column (snd p)) (modify c rev_col cs0)"
      using Cons.prems(2) by (rule wf_modify_rev)
    have nm: "fst ` set (modify c rev_col cs0) = fst ` set cs0"
      by (metis names_modify set_map)
    have step: "reverse_loop Replace t (c # cs) = reverse_loop Replace ?t' cs"
    proof (cases col)
      case (CatCol entries cats)
      with wfc have "recode entries (rev cats) = Inr (CatCol entries (rev cats))"
        by (simp only: recode_wf)
      with g CatCol Some Cons.prems(1) show ?thesis
        by (simp add: loc_setitem_def setitem_def modify_def)
    next
      case (NumCol xs)
      with g Some Cons.prems(1) show ?thesis
        by (cases t) (simp add: modify_def assign_col_same)
    next
      case (StrCol xs)
      with g Some Cons.prems(1) show ?thesis
        by (cases t) (simp add: modify_def assign_col_same)
    qed
    show ?thesis
      unfolding step Cons.IH [OF c' wf'] nm using cin by simp
  qed
qed

text \<open>Where the assignment writes into the column, the loop leaves a well-formed table as it is.\<close>

lemma setitem_same: "getitem t c = Inr col \<Longrightarrow> setitem t c col = t"
  by (cases t) (auto simp: getitem_def setitem_def assign_col_same split: col_table.splits option.splits)

lemma loc_setitem_InPlace_rev:
  assumes "getitem t c = Inr (CatCol entries cats)"
  shows "loc_setitem InPlace t c (CatCol entries (rev cats)) = t"
  using assms setitem_same [OF assms] by (simp add: loc_setitem_def)

lemma reverse_loop_InPlace:
  assumes "columns t = Index cs0" and "list_all (\<lambda>p. wf_column (snd p)) cs0"
  shows "reverse_loop InPlace t cs = (if set cs \<subseteq> fst ` set cs0 then Inr t else Inl KeyError)"
proof (induction cs)
  case Nil
  then show ?case by simp
next
  case (Cons c cs)
  show ?case
  proof (cases "map_of cs0 c")
    case None
    then have "c \<notin> fst ` set cs0" by (simp add: map_of_eq_None_iff)
    with None assms show ?thesis by (simp add: getitem_def)
  next
    case (Some col)
    then have cin: "c \<in> fst ` set cs0" by (metis map_of_eq_None_iff option.distinct(1))
    have wfc: "wf_column col" using assms(2) Some by (rule wf_map_of)
    have g: "getitem t c = Inr col" using assms(1) Some by (simp add: getitem_def)
    have step: "reverse_loop InPlace t (c # cs) = reverse_loop InPlace t cs"
    proof (cases col)
      case (CatCol entries cats)
      with wfc have "recode entries (rev cats) = Inr (CatCol entries (rev cats))"
        by (simp only: recode_wf)
      with g CatCol show ?thesis
        by (simp add: loc_setitem_InPlace_rev)
    next
      case (NumCol xs)
      with g show ?thesis by simp
    next
      case (StrCol xs)
      with g show ?thesis by simp
    qed
    show ?thesis
      unfolding step Cons.IH using cin by simp
  qed
qed

lemma wf_fold_modify_rev:
  "list_all (\<lambda>p. wf_column (snd p)) cs \<Longrightarrow>
   list_all (\<lambda>p. wf_column (snd p)) (fold (\<lambda>c. modify c rev_col) xs cs)"
  by (induction xs arbitrary: cs) (simp_all add: wf_modify_rev)

lemma target_columns_of_Index:
  "columns t = Index cs0 \<Longrightarrow> columns t' = Index cs1 \<Longrightarrow> map fst cs1 = map fst cs0 \<Longrightarrow>
   target_columns_of t' tc = target_columns_of t tc"
  by (simp add: target_columns_of_def column_names_def split: targets.splits)

lemma reverse_categories_Inr_Index:
  assumes "reverse_categories fs t tc = Inr t1"
  shows "\<exists>cs0. columns t = Index cs0"
proof (cases "columns t")
  case (Index cs0)
  then show ?thesis by simp
next
  case (MultiIndex ms)
  have g: "\<And>c. getitem t c = Inl Unsupported" using MultiIndex by (simp add: getitem_def)
  have "\<And>cs. reverse_loop fs t cs = Inr t1 \<Longrightarrow> cs = []"
    subgoal for cs by (cases cs) (simp_all add: g)
    done
  with assms MultiIndex show ?thesis
    by (auto simp: reverse_categories_def target_columns_of_def column_names_def
        split: targets.splits sum.splits if_splits)
qed

lemma reverse_categories_twice_Replace:
  assumes wf: "wf_table t" and r: "reverse_categories Replace t tc = Inr t1"
  shows "reverse_categories Replace t1 tc = Inr t"
proof -
  from reverse_categories_Inr_Index [OF r] obtain cs0 where c0: "columns t = Index cs0" by blast
  from wf c0 have wf0: "list_all (\<lambda>p. wf_column (snd p)) cs0" by (simp add: wf_table_def)
  from r obtain cs where tc: "target_columns_of t tc = Inr cs" and l: "reverse_loop Replace t cs = Inr t1"
    by (auto simp: reverse_categories_def split: sum.splits)
  let ?F = "\<lambda>c. modify c rev_col"
  from l have sub: "set cs \<subseteq> fst ` set cs0" and t1: "t1 = t\<lparr>columns := Index (fold ?F cs cs0)\<rparr>"
    unfolding reverse_loop_Index [OF c0 wf0] by (auto split: if_splits)
  have c1: "columns t1 = Index (fold ?F cs cs0)" by (simp add: t1)
  have wf1: "list_all (\<lambda>p. wf_column (snd p)) (fold ?F cs cs0)"
    using wf0 by (rule wf_fold_modify_rev)
  have nm: "map fst (fold ?F cs cs0) = map fst cs0" by (rule names_fold_modify)
  have tc1: "target_columns_of t1 tc = Inr cs"
    using target_columns_of_Index [OF c0 c1 nm] tc by simp
  have sub1: "set cs \<subseteq> fst ` set (fold ?F cs cs0)"
    using sub nm by (metis set_map)
  have "reverse_loop Replace t1 cs = Inr (t1\<lparr>columns := Index (fold ?F cs (fold ?F cs cs0))\<rparr>)"
    unfolding reverse_loop_Index [OF c1 wf1] using sub1 by simp
  also have "\<dots> = Inr t" using c0 by (simp add: t1 fold_modify_rev_twice)
  finally show ?thesis by (simp add: reverse_categories_def tc1)
qed

lemma reverse_categories_InPlace:
  assumes wf: "wf_table t" and r: "reverse_categories InPlace t tc = Inr t1"
  shows "t1 = t"
proof -
  from reverse_categories_Inr_Index [OF r] obtain cs0 where c0: "columns t = Index cs0" by blast
  from wf c0 have wf0: "list_all (\<lambda>p. wf_column (snd p)) cs0" by (simp add: wf_table_def)
  from r obtain cs where l: "reverse_loop InPlace t cs = Inr t1"
    by (auto simp: reverse_categories_def split: sum.splits)
  then show ?thesis
    unfolding reverse_loop_InPlace [OF c0 wf0] by (auto split: if_splits)
qed

lemma reverse_categories_twice:
  assumes wf: "wf_table t" and r: "reverse_categories fs t tc = Inr t1"
  shows "reverse_categories fs t1 tc = Inr t"
proof (cases fs)
  case Replace
  from r have "reverse_categories Replace t tc = Inr t1" by (simp only: Replace)
  from reverse_categories_twice_Replace [OF wf this] show ?thesis by (simp only: Replace)
next
  case InPlace
  from r have r': "reverse_categories InPlace t tc = Inr t1" by (simp only: InPlace)
  from reverse_categories_InPlace [OF wf r'] have "t1 = t" .
  with r show ?thesis by simp
qed

lemma reverse_categories_total:
  assumes wf: "wf_table t" and c0: "columns t = Index cs0"
  shows "\<exists>t1. reverse_categories fs t NoTargets = Inr t1"
proof -
  from wf c0 have wf0: "list_all (\<lambda>p. wf_column (snd p)) cs0" by (simp add: wf_table_def)
  show ?thesis
    by (cases fs)
      (simp_all add: reverse_categories_def target_columns_of_def column_names_def c0
        reverse_loop_Index [OF c0 wf0] reverse_loop_InPlace [OF c0 wf0])
qed

lemma flatten_columns_twice: "flatten_columns (flatten_columns df sep) sep2 = flatten_columns df sep"
  by (cases "columns df") (simp_all add: flatten_columns_def)

text \<open>
  Claim C9. Flattening the header of a flattened table changes nothing. On a well-formed
  table, a call of \<^verbatim>\<open>reverse_categories\<close> that succeeds is undone by a second call with the
  same targets: the second call succeeds and returns the original table, every
  categorical column with its original level order. With no targets given, the call
  succeeds on every well-formed table with a flat header. This holds for both ways in
  which pandas carries out the assignment \<^verbatim>\<open>res.loc[:, c] = ...\<close>: where it replaces the
  column, each call reverses the levels, and where it writes into the column, each call
  leaves the levels as they are.
\<close>

theorem flatten_twice_reverse_twice:
  "flatten_columns (flatten_columns df sep) sep = flatten_columns df sep
   \<and> (wf_table t \<and> reverse_categories fs t tc = Inr t1 \<longrightarrow> reverse_categories fs t1 tc = Inr t)
   \<and> (wf_table t \<and> columns t = Index cs0 \<longrightarrow>
        (\<exists>t1. reverse_categories fs t NoTargets = Inr t1 \<and> reverse_categories fs t1 NoTargets = Inr t))"
proof (intro conjI impI)
  show "flatten_columns (flatten_columns df sep) sep = flatten_columns df sep"
    by (rule flatten_columns_twice)
next
  assume "wf_table t \<and> reverse_categories fs t tc = Inr t1"
  then show "reverse_categories fs t1 tc = Inr t"
    using reverse_categories_twice by blast
next
  assume a: "wf_table t \<and> columns t = Index cs0"
  then obtain t1 where 1: "reverse_categories fs t NoTargets = Inr t1"
    using reverse_categories_total by blast
  with a reverse_categories_twice
  show "\<exists>t1. reverse_categories fs t NoTargets = Inr t1 \<and> reverse_categories fs t1 NoTargets = Inr t"
    by blast
qed

lemma wf_df3: "wf_table df3"
  by (simp add: wf_table_def df3_def)

lemma reverse_df3_Replace: "reverse_categories Replace df3 NoTargets = Inr df3_reversed"
  by code_simp

lemma reverse_df3_InPlace: "reverse_categories InPlace df3 NoTargets = Inr df3"
  by code_simp

theorem flatten_twice_reverse_twice_witness:
  "flatten_columns (flatten_columns df_multi ''_'') ''_'' = flatten_columns df_multi ''_''
   \<and> flatten_columns df_multi ''_'' = \<lparr>index = [0, 1, 2],
        columns = Index [(''col1_level1_1'', NumCol [1, 2, 3]),
                         (''col2_level1_col2_level2'', NumCol [1, 2, 3])]\<rparr>
   \<and> reverse_categories Replace df3 NoTargets = Inr df3_reversed
   \<and> reverse_categories Replace df3_reversed NoTargets = Inr df3
   \<and> reverse_categories InPlace df3 NoTargets = Inr df3"
proof -
  note T = flatten_twice_reverse_twice [of df_multi "''_''" df3 Replace NoTargets df3_reversed]
  note U = flatten_twice_reverse_twice [of df_multi "''_''" df3 InPlace NoTargets df3]
  have f: "flatten_columns df_multi ''_'' = \<lparr>index = [0, 1, 2],
        columns = Index [(''col1_level1_1'', NumCol [1, 2, 3]),
                         (''col2_level1_col2_level2'', NumCol [1, 2, 3])]\<rparr>"
    by code_simp
  from T [THEN conjunct2, THEN conjunct1] wf_df3 reverse_df3_Replace
  have r: "reverse_categories Replace df3_reversed NoTargets = Inr df3"
    by blast
  from U [THEN conjunct2, THEN conjunct1] wf_df3 reverse_df3_InPlace
  have i: "reverse_categories InPlace df3 NoTargets = Inr df3"
    by blast
  from T [THEN conjunct1] f reverse_df3_Replace r i show ?thesis by simp
qed
section \<open>The helpers leave their input as it is\<close>

lemma unchanged_refl: "unchanged s s"
  by (simp add: unchanged_def)

lemma unchanged_h_copy:
  "unchanged s0 s \<Longrightarrow> h_copy s r = (res, s1) \<Longrightarrow>
   unchanged s0 s1 \<and> res = length s \<and> length s1 = Suc (length s)"
  by (auto simp: h_copy_def unchanged_def)

lemma unchanged_h_setitem:
  "unchanged s0 s \<Longrightarrow> length s0 \<le> r \<Longrightarrow> unchanged s0 (h_setitem s r c col)"
  by (auto simp: h_setitem_def unchanged_def)

lemma unchanged_h_loc_setitem:
  "unchanged s0 s \<Longrightarrow> length s0 \<le> r \<Longrightarrow> unchanged s0 (h_loc_setitem fs s r c col)"
  by (auto simp: h_loc_setitem_def unchanged_def)

lemma length_h_setitem: "length (h_setitem s r c col) = length s"
  by (simp add: h_setitem_def)

lemma length_h_loc_setitem: "length (h_loc_setitem fs s r c col) = length s"
  by (simp add: h_loc_setitem_def)

lemma unchanged_nth: "unchanged s0 s \<Longrightarrow> r < length s0 \<Longrightarrow> s ! r = s0 ! r"
  by (metis nth_take unchanged_def)

lemma reverse_loop_st_frame:
  "reverse_loop_st fs s res cs = (e, s') \<Longrightarrow> unchanged s0 s \<Longrightarrow> length s0 \<le> res
     \<Longrightarrow> unchanged s0 s' \<and> length s' = length s"
proof (induction cs arbitrary: s)
  case Nil
  then show ?case by simp
next
  case (Cons c cs)
  show ?case
  proof (cases "getitem (s ! res) c")
    case (Inl a)
    with Cons.prems show ?thesis by simp
  next
    case (Inr col)
    show ?thesis
    proof (cases col)
      case (CatCol entries cats)
      show ?thesis
      proof (cases "recode entries (rev cats)")
        case (Inl a)
        with Cons.prems Inr CatCol show ?thesis by simp
      next
        case r: (Inr col')
        from Cons.prems(1) Inr CatCol r
        have "reverse_loop_st fs (h_loc_setitem fs s res c col') res cs = (e, s')" by simp
        from Cons.IH [OF this unchanged_h_loc_setitem [OF Cons.prems(2,3)] Cons.prems(3)]
        show ?thesis by (simp add: length_h_loc_setitem)
      qed
    next
      case (NumCol x)
      with Cons.prems Inr have "reverse_loop_st fs s res cs = (e, s')" by simp
      from Cons.IH [OF this Cons.prems(2,3)] show ?thesis .
    next
      case (StrCol x)
      with Cons.prems Inr have "reverse_loop_st fs s res cs = (e, s')" by simp
      from Cons.IH [OF this Cons.prems(2,3)] show ?thesis .
    qed
  qed
qed

lemma drop_loop_st_frame:
  "drop_loop_st s res cs = (e, s') \<Longrightarrow> unchanged s0 s \<Longrightarrow> length s0 \<le> res
     \<Longrightarrow> unchanged s0 s' \<and> length s' = length s"
proof (induction cs arbitrary: s)
  case Nil
  then show ?case by simp
next
  case (Cons c cs)
  show ?case
  proof (cases "getitem (s ! res) c")
    case (Inl a)
    with Cons.prems show ?thesis by simp
  next
    case (Inr col)
    show ?thesis
    proof (cases col)
      case (CatCol entries cats)
      from Cons.prems(1) Inr CatCol
      have "drop_loop_st (h_setitem s res c (remove_unused_categories entries cats)) res cs = (e, s')"
        by simp
      from Cons.IH [OF this unchanged_h_setitem [OF Cons.prems(2,3)] Cons.prems(3)]
      show ?thesis by (simp add: length_h_setitem)
    next
      case (NumCol x)
      with Cons.prems Inr have "drop_loop_st s res cs = (e, s')" by simp
      from Cons.IH [OF this Cons.prems(2,3)] show ?thesis .
    next
      case (StrCol x)
      with Cons.prems Inr have "drop_loop_st s res cs = (e, s')" by simp
      from Cons.IH [OF this Cons.prems(2,3)] show ?thesis .
    qed
  qed
qed

lemma reverse_categories_st_frame:
  assumes "reverse_categories_st fs s self tc = (r, s')"
  shows "unchanged s s' \<and> is_new s s' r"
proof -
  obtain res s1 where c: "h_copy s self = (res, s1)" by (cases "h_copy s self")
  from unchanged_h_copy [OF unchanged_refl c]
  have u1: "unchanged s s1" and res: "res = length s" and l1: "length s1 = Suc (length s)" by auto
  show ?thesis
  proof (cases "target_columns_of (s1 ! res) tc")
    case (Inl e)
    with assms c u1 show ?thesis by (auto simp: reverse_categories_st_def is_new_def)
  next
    case (Inr cs)
    obtain e s2 where l: "reverse_loop_st fs s1 res cs = (e, s2)" by (cases "reverse_loop_st fs s1 res cs")
    from reverse_loop_st_frame [OF l u1] res
    have u2: "unchanged s s2" and l2: "length s2 = length s1" by auto
    from assms c Inr l u2 l2 l1 res show ?thesis
      by (cases e) (auto simp: reverse_categories_st_def is_new_def)
  qed
qed

lemma drop_unused_levels_st_frame:
  assumes "drop_unused_levels_st s self tc = (r, s')"
  shows "unchanged s s' \<and> is_new s s' r"
proof -
  obtain res s1 where c: "h_copy s self = (res, s1)" by (cases "h_copy s self")
  from unchanged_h_copy [OF unchanged_refl c]
  have u1: "unchanged s s1" and res: "res = length s" and l1: "length s1 = Suc (length s)" by auto
  show ?thesis
  proof (cases "target_columns_of (s1 ! res) tc")
    case (Inl e)
    with assms c u1 show ?thesis by (auto simp: drop_unused_levels_st_def is_new_def)
  next
    case (Inr cs)
    obtain e s2 where l: "drop_loop_st s1 res cs = (e, s2)" by (cases "drop_loop_st s1 res cs")
    from drop_loop_st_frame [OF l u1] res
    have u2: "unchanged s s2" and l2: "length s2 = length s1" by auto
    from assms c Inr l u2 l2 l1 res show ?thesis
      by (cases e) (auto simp: drop_unused_levels_st_def is_new_def)
  qed
qed

lemma select_rows_st_frame:
  assumes "select_rows_st s self p = (r, s')"
  shows "unchanged s s' \<and> is_new s s' r"
  using assms
  by (auto simp: select_rows_st_def h_boolean_index_def h_copy_def unchanged_def is_new_def
           split: if_splits)

lemma truncate_st_frame:
  assumes "truncate_st s res c ks cats ko ol = (res2, s')" and "unchanged s0 s"
    and "length s0 \<le> res" and "res < length s"
  shows "unchanged s0 s' \<and> length s0 \<le> res2 \<and> res2 < length s'"
  using assms
  by (auto simp: truncate_st_def h_boolean_index_def h_copy_def unchanged_def h_setitem_def
           split: if_splits)

lemma relevel_st_frame:
  assumes "relevel_st sv s res c v agg rv = (r, s')" and "unchanged s0 s"
    and "length s0 \<le> res" and "res < length s"
  shows "unchanged s0 s' \<and> is_new s0 s' r"
  using assms
  by (auto simp: relevel_st_def is_new_def unchanged_h_setitem length_h_setitem Let_def
           split: sum.splits column.splits)

lemma set_categorical_st_frame:
  assumes "set_categorical_st sv s self c v agg rv tn ko ol = (r, s')"
  shows "unchanged s s' \<and> is_new s s' r"
proof -
  define s1 where "s1 = s @ [s ! self]"
  define res where "res = length s"
  have c: "h_copy s self = (res, s1)" by (simp add: h_copy_def s1_def res_def)
  have u1: "unchanged s s1" "length s \<le> res" "res < length s1"
    by (simp_all add: s1_def res_def unchanged_def)
  show ?thesis
  proof (cases "getitem (s1 ! res) c")
    case (Inl e)
    with assms c u1 show ?thesis by (auto simp: set_categorical_st_def is_new_def)
  next
    case (Inr c0)
    define s2 where "s2 = (case c0 of CatCol vs cats \<Rightarrow> h_setitem s1 res c (StrCol (astype_str vs)) | _ \<Rightarrow> s1)"
    have u2: "unchanged s s2" "res < length s2"
      using u1 by (auto simp: s2_def unchanged_h_setitem length_h_setitem split: column.splits)
    have a: "(case getitem (s2 ! res) c of
                   Inr (StrCol ks) \<Rightarrow>
                     (if \<not> truthy_str v
                      then (Inr res, h_setitem s2 res c (Categorical ks))
                      else
                        (case sort_for_categories sv c (the v) agg (s2 ! res) of
                           Inl e \<Rightarrow> (Inl e, s2)
                         | Inr sort_data \<Rightarrow>
                             (let categories = slice_to tn (map fst sort_data);
                                  (res2, s3) =
                                    (if truthy_int tn
                                     then truncate_st s2 res c ks categories ko ol
                                     else (res, s2))
                              in relevel_st sv s3 res2 c (the v) agg rv)))
                 | Inr _ \<Rightarrow> (Inl Unsupported, s2)
                 | Inl e \<Rightarrow> (Inl e, s2)) = (r, s')"
      using assms c Inr unfolding set_categorical_st_def s2_def by (simp add: Let_def)
    show ?thesis
    proof (cases "getitem (s2 ! res) c")
      case (Inl e)
      with a u2 show ?thesis by (auto simp: is_new_def)
    next
      case g: (Inr col)
      show ?thesis
      proof (cases col)
        case (NumCol x)
        with a g u2 show ?thesis by (auto simp: is_new_def)
      next
        case (CatCol x y)
        with a g u2 show ?thesis by (auto simp: is_new_def)
      next
        case (StrCol ks)
        show ?thesis
        proof (cases "truthy_str v")
          case False
          with a g StrCol u1 u2 show ?thesis
            by (auto simp: is_new_def unchanged_h_setitem length_h_setitem)
        next
          case True
          show ?thesis
          proof (cases "sort_for_categories sv c (the v) agg (s2 ! res)")
            case (Inl e)
            with a g StrCol True u2 show ?thesis by (auto simp: is_new_def)
          next
            case sd: (Inr sort_data)
            obtain res2 s3 where t: "(if truthy_int tn
                                     then truncate_st s2 res c ks (slice_to tn (map fst sort_data)) ko ol
                                     else (res, s2)) = (res2, s3)"
              by (cases "(if truthy_int tn
                                     then truncate_st s2 res c ks (slice_to tn (map fst sort_data)) ko ol
                                     else (res, s2))")
            have u3: "unchanged s s3 \<and> length s \<le> res2 \<and> res2 < length s3"
            proof (cases "truthy_int tn")
              case True
              with t have "truncate_st s2 res c ks (slice_to tn (map fst sort_data)) ko ol = (res2, s3)"
                by simp
              from truncate_st_frame [OF this u2(1) u1(2) u2(2)] show ?thesis .
            next
              case False
              with t u1 u2 show ?thesis by auto
            qed
            from a g StrCol True sd t have "relevel_st sv s3 res2 c (the v) agg rv = (r, s')"
              by (simp add: Let_def)
            from relevel_st_frame [OF this] u3 show ?thesis by blast
          qed
        qed
      qed
    qed
  qed
qed

text \<open>The helpers on the store compute what the helpers on values compute.\<close>

lemma reverse_loop_st_refines:
  "res < length s \<Longrightarrow> reverse_loop_st fs s res cs = (e, s') \<Longrightarrow>
   reverse_loop fs (s ! res) cs = (case e of Some er \<Rightarrow> Inl er | None \<Rightarrow> Inr (s' ! res))"
proof (induction cs arbitrary: s)
  case Nil
  then show ?case by auto
next
  case (Cons c cs)
  show ?case
  proof (cases "getitem (s ! res) c")
    case (Inl a)
    with Cons.prems show ?thesis by auto
  next
    case (Inr col)
    show ?thesis
    proof (cases col)
      case (CatCol entries cats)
      show ?thesis
      proof (cases "recode entries (rev cats)")
        case (Inl a)
        with Cons.prems Inr CatCol show ?thesis by auto
      next
        case r: (Inr col')
        let ?s = "h_loc_setitem fs s res c col'"
        from Cons.prems(2) Inr CatCol r
        have l: "reverse_loop_st fs ?s res cs = (e, s')" by simp
        have len: "res < length ?s" using Cons.prems(1) by (simp add: length_h_loc_setitem)
        have n: "?s ! res = loc_setitem fs (s ! res) c col'"
          using Cons.prems(1) by (simp add: h_loc_setitem_def)
        from Cons.IH [OF len l] n Inr CatCol r show ?thesis by simp
      qed
    next
      case (NumCol x)
      with Cons.prems Inr have "reverse_loop_st fs s res cs = (e, s')" by simp
      from Cons.IH [OF Cons.prems(1) this] Inr NumCol show ?thesis by simp
    next
      case (StrCol x)
      with Cons.prems Inr have "reverse_loop_st fs s res cs = (e, s')" by simp
      from Cons.IH [OF Cons.prems(1) this] Inr StrCol show ?thesis by simp
    qed
  qed
qed

lemma drop_loop_st_refines:
  "res < length s \<Longrightarrow> drop_loop_st s res cs = (e, s') \<Longrightarrow>
   drop_loop (s ! res) cs = (case e of Some er \<Rightarrow> Inl er | None \<Rightarrow> Inr (s' ! res))"
proof (induction cs arbitrary: s)
  case Nil
  then show ?case by auto
next
  case (Cons c cs)
  show ?case
  proof (cases "getitem (s ! res) c")
    case (Inl a)
    with Cons.prems show ?thesis by auto
  next
    case (Inr col)
    show ?thesis
    proof (cases col)
      case (CatCol entries cats)
      let ?s = "h_setitem s res c (remove_unused_categories entries cats)"
      from Cons.prems(2) Inr CatCol
      have l: "drop_loop_st ?s res cs = (e, s')" by simp
      have len: "res < length ?s" using Cons.prems(1) by (simp add: length_h_setitem)
      have n: "?s ! res = setitem (s ! res) c (remove_unused_categories entries cats)"
        using Cons.prems(1) by (simp add: h_setitem_def)
      from Cons.IH [OF len l] n Inr CatCol show ?thesis by simp
    next
      case (NumCol x)
      with Cons.prems Inr have "drop_loop_st s res cs = (e, s')" by simp
      from Cons.IH [OF Cons.prems(1) this] Inr NumCol show ?thesis by simp
    next
      case (StrCol x)
      with Cons.prems Inr have "drop_loop_st s res cs = (e, s')" by simp
      from Cons.IH [OF Cons.prems(1) this] Inr StrCol show ?thesis by simp
    qed
  qed
qed

lemma reverse_categories_st_refines:
  "outcome (reverse_categories_st fs s self tc) = reverse_categories fs (s ! self) tc"
proof (cases "target_columns_of (s ! self) tc")
  case (Inl e)
  then show ?thesis
    by (simp add: outcome_def reverse_categories_st_def reverse_categories_def h_copy_def)
next
  case (Inr cs)
  obtain e s2 where l: "reverse_loop_st fs (s @ [s ! self]) (length s) cs = (e, s2)"
    by (cases "reverse_loop_st fs (s @ [s ! self]) (length s) cs")
  from reverse_loop_st_refines [OF _ l]
  have "reverse_loop fs (s ! self) cs = (case e of Some er \<Rightarrow> Inl er | None \<Rightarrow> Inr (s2 ! length s))"
    by simp
  with Inr l show ?thesis
    by (cases e) (simp_all add: outcome_def reverse_categories_st_def reverse_categories_def h_copy_def)
qed

lemma drop_unused_levels_st_refines:
  "outcome (drop_unused_levels_st s self tc) = drop_unused_levels (s ! self) tc"
proof (cases "target_columns_of (s ! self) tc")
  case (Inl e)
  then show ?thesis
    by (simp add: outcome_def drop_unused_levels_st_def drop_unused_levels_def h_copy_def)
next
  case (Inr cs)
  obtain e s2 where l: "drop_loop_st (s @ [s ! self]) (length s) cs = (e, s2)"
    by (cases "drop_loop_st (s @ [s ! self]) (length s) cs")
  from drop_loop_st_refines [OF _ l]
  have "drop_loop (s ! self) cs = (case e of Some er \<Rightarrow> Inl er | None \<Rightarrow> Inr (s2 ! length s))"
    by simp
  with Inr l show ?thesis
    by (cases e) (simp_all add: outcome_def drop_unused_levels_st_def drop_unused_levels_def h_copy_def)
qed

lemma select_rows_st_refines:
  "outcome (select_rows_st s self p) = select_rows (s ! self) p"
  by (simp add: outcome_def select_rows_st_def select_rows_def h_boolean_index_def h_copy_def nth_append)

lemma relevel_st_refines:
  "res < length s \<Longrightarrow>
   outcome (relevel_st sv s res c v agg rv) =
     (case sort_for_categories sv c v agg (s ! res) of
        Inl e \<Rightarrow> Inl e
      | Inr fin \<Rightarrow>
          (case getitem (s ! res) c of
             Inr (StrCol ks2) \<Rightarrow>
               (case Categorical_with ks2 (if rv then rev (map fst fin) else map fst fin) of
                  Inl e \<Rightarrow> Inl e
                | Inr cc \<Rightarrow> Inr (setitem (s ! res) c cc))
           | Inr _ \<Rightarrow> Inl Unsupported
           | Inl e \<Rightarrow> Inl e))"
  by (auto simp: outcome_def relevel_st_def h_setitem_def Let_def split: sum.splits column.splits)

lemma truncate_st_refines:
  "res < length s \<Longrightarrow> truncate_st s res c ks cats ko ol = (res2, s') \<Longrightarrow>
   res2 < length s' \<and>
   s' ! res2 = (if ko then setitem (s ! res) c (StrCol (map (\<lambda>k. if k \<in> set cats then k else ol) ks))
                else boolean_index (s ! res) (map (\<lambda>k. k \<in> set cats) ks))"
  by (auto simp: truncate_st_def h_setitem_def h_boolean_index_def h_copy_def nth_append split: if_splits)

lemma set_categorical_st_refines:
  "outcome (set_categorical_st sv s self c v agg rv tn ko ol) = set_categorical sv (s ! self) c v agg rv tn ko ol"
proof -
  define s1 where "s1 = s @ [s ! self]"
  define res where "res = length s"
  have c1: "h_copy s self = (res, s1)" by (simp add: h_copy_def s1_def res_def)
  have r1: "res < length s1" "s1 ! res = s ! self" by (simp_all add: s1_def res_def)
  show ?thesis
  proof (cases "getitem (s ! self) c")
    case (Inl e)
    with c1 r1 show ?thesis by (simp add: outcome_def set_categorical_st_def set_categorical_def)
  next
    case (Inr c0)
    define s2 where "s2 = (case c0 of CatCol vs cats \<Rightarrow> h_setitem s1 res c (StrCol (astype_str vs)) | _ \<Rightarrow> s1)"
    define t2 where "t2 = (case c0 of CatCol vs cats \<Rightarrow> setitem (s ! self) c (StrCol (astype_str vs)) | _ \<Rightarrow> s ! self)"
    have r2: "res < length s2" "s2 ! res = t2"
      using r1 by (auto simp: s2_def t2_def h_setitem_def split: column.splits)
    show ?thesis
    proof (cases "getitem t2 c")
      case (Inl e)
      with c1 r1 r2 Inr show ?thesis
        unfolding outcome_def set_categorical_st_def set_categorical_def s2_def t2_def
        by (simp add: Let_def)
    next
      case g: (Inr col)
      show ?thesis
      proof (cases col)
        case (NumCol x)
        with g c1 r1 r2 Inr show ?thesis
          unfolding outcome_def set_categorical_st_def set_categorical_def s2_def t2_def
          by (simp add: Let_def)
      next
        case (CatCol x y)
        with g c1 r1 r2 Inr show ?thesis
          unfolding outcome_def set_categorical_st_def set_categorical_def s2_def t2_def
          by (simp add: Let_def)
      next
        case (StrCol ks)
        show ?thesis
        proof (cases "truthy_str v")
          case False
          with StrCol g c1 r1 r2 Inr show ?thesis
            unfolding outcome_def set_categorical_st_def set_categorical_def s2_def t2_def
            by (simp add: Let_def h_setitem_def)
        next
          case True
          show ?thesis
          proof (cases "sort_for_categories sv c (the v) agg t2")
            case (Inl e)
            with True StrCol g c1 r1 r2 Inr show ?thesis
              unfolding outcome_def set_categorical_st_def set_categorical_def s2_def t2_def
              by (simp add: Let_def)
          next
            case sd: (Inr sort_data)
            define cats where "cats = slice_to tn (map fst sort_data)"
            obtain res2 s3 where t: "(if truthy_int tn then truncate_st s2 res c ks cats ko ol else (res, s2)) = (res2, s3)"
              by (cases "(if truthy_int tn then truncate_st s2 res c ks cats ko ol else (res, s2))")
            define t3 where "t3 = (if truthy_int tn then
                                    (if ko then setitem t2 c (StrCol (map (\<lambda>k. if k \<in> set cats then k else ol) ks))
                                     else boolean_index t2 (map (\<lambda>k. k \<in> set cats) ks))
                                  else t2)"
            have r3: "res2 < length s3 \<and> s3 ! res2 = t3"
            proof (cases "truthy_int tn")
              case True
              with t have "truncate_st s2 res c ks cats ko ol = (res2, s3)" by simp
              from truncate_st_refines [OF r2(1) this] True r2(2) show ?thesis by (simp add: t3_def)
            next
              case False
              with t r2 show ?thesis by (auto simp: t3_def)
            qed
            have a: "set_categorical_st sv s self c v agg rv tn ko ol = relevel_st sv s3 res2 c (the v) agg rv"
              using True StrCol g c1 r1 r2 Inr sd t
              unfolding set_categorical_st_def s2_def t2_def cats_def
              by (simp add: Let_def)
            have b: "set_categorical sv (s ! self) c v agg rv tn ko ol =
               (case sort_for_categories sv c (the v) agg t3 of
                  Inl e \<Rightarrow> Inl e
                | Inr fin \<Rightarrow>
                    (case getitem t3 c of
                       Inr (StrCol ks2) \<Rightarrow>
                         (case Categorical_with ks2 (if rv then rev (map fst fin) else map fst fin) of
                            Inl e \<Rightarrow> Inl e
                          | Inr cc \<Rightarrow> Inr (setitem t3 c cc))
                     | Inr _ \<Rightarrow> Inl Unsupported
                     | Inl e \<Rightarrow> Inl e))"
              using True StrCol g Inr sd
              unfolding set_categorical_def t2_def t3_def cats_def
              by (simp add: Let_def cong: sum.case_cong)
            from r3 have l3: "res2 < length s3" and e3: "s3 ! res2 = t3" by simp_all
            show ?thesis
              unfolding a b relevel_st_refines [OF l3] e3 by (rule refl)
          qed
        qed
      qed
    qed
  qed
qed

lemma leaves_inputI:
  assumes "self < length s" and "\<And>r s'. p = (r, s') \<Longrightarrow> unchanged s s' \<and> is_new s s' r"
  shows "leaves_input s self p"
proof -
  from assms(2) [of "fst p" "snd p"] have u: "unchanged s (snd p)" and n: "is_new s (snd p) (fst p)"
    by simp_all
  from unchanged_nth [OF u assms(1)] u n show ?thesis by (simp add: leaves_input_def)
qed

text \<open>
  Claim C10. Each of \<^verbatim>\<open>set_categorical\<close>, \<^verbatim>\<open>drop_unused_levels\<close>, \<^verbatim>\<open>reverse_categories\<close> and
  \<^verbatim>\<open>select_rows\<close>, called on a table of the store, leaves every table of the store as it
  was, the input among them: same index, same columns, same entries, same levels in the
  same order. Where the call succeeds, the table it returns is an object that was not in
  the store before the call, and it holds what the helper computes from the input. This
  holds for every sort, for both ways of carrying out the assignment in
  \<^verbatim>\<open>reverse_categories\<close>, and for every predicate of \<^verbatim>\<open>select_rows\<close> that does not itself
  change the table it is given.
\<close>

theorem helpers_leave_input:
  assumes "self < length s"
  shows "leaves_input s self (set_categorical_st sv s self c v agg rv top_n keep other)
       \<and> outcome (set_categorical_st sv s self c v agg rv top_n keep other)
           = set_categorical sv (s ! self) c v agg rv top_n keep other
       \<and> leaves_input s self (drop_unused_levels_st s self tc)
       \<and> outcome (drop_unused_levels_st s self tc) = drop_unused_levels (s ! self) tc
       \<and> leaves_input s self (reverse_categories_st fs s self tc)
       \<and> outcome (reverse_categories_st fs s self tc) = reverse_categories fs (s ! self) tc
       \<and> leaves_input s self (select_rows_st s self predicate)
       \<and> outcome (select_rows_st s self predicate) = select_rows (s ! self) predicate"
proof -
  have 1: "leaves_input s self (set_categorical_st sv s self c v agg rv top_n keep other)"
    using assms by (rule leaves_inputI) (rule set_categorical_st_frame)
  have 2: "leaves_input s self (drop_unused_levels_st s self tc)"
    using assms by (rule leaves_inputI) (rule drop_unused_levels_st_frame)
  have 3: "leaves_input s self (reverse_categories_st fs s self tc)"
    using assms by (rule leaves_inputI) (rule reverse_categories_st_frame)
  have 4: "leaves_input s self (select_rows_st s self predicate)"
    using assms by (rule leaves_inputI) (rule select_rows_st_frame)
  show ?thesis
    by (intro conjI 1 2 3 4 set_categorical_st_refines drop_unused_levels_st_refines
        reverse_categories_st_refines select_rows_st_refines)
qed

theorem helpers_leave_input_witness:
  "snd (set_categorical_st stable_descending [df3] 0 ''group1'' (Some ''value'') np_sum False (Some 2) False ''_other'') ! 0 = df3
   \<and> fst (set_categorical_st stable_descending [df3] 0 ''group1'' (Some ''value'') np_sum False (Some 2) False ''_other'') = Inr 3
   \<and> snd (drop_unused_levels_st [df3] 0 NoTargets) ! 0 = df3
   \<and> fst (drop_unused_levels_st [df3] 0 NoTargets) = Inr 1
   \<and> snd (reverse_categories_st Replace [df3] 0 NoTargets) = [df3, df3_reversed]
   \<and> fst (reverse_categories_st Replace [df3] 0 NoTargets) = Inr 1
   \<and> snd (select_rows_st [df3] 0 (\<lambda>t. map (\<lambda>i. i < 3) (index t))) ! 0 = df3
   \<and> fst (select_rows_st [df3] 0 (\<lambda>t. map (\<lambda>i. i < 3) (index t))) = Inr 2"
proof -
  have l: "0 < length [df3]" by simp
  note T = helpers_leave_input [OF l, of stable_descending "''group1''" "Some ''value''" np_sum False
      "Some 2" False "''_other''" NoTargets Replace "\<lambda>t. map (\<lambda>i. i < 3) (index t)"]
  have 1: "snd (set_categorical_st stable_descending [df3] 0 ''group1'' (Some ''value'') np_sum False (Some 2) False ''_other'') ! 0 = df3"
    using T [THEN conjunct1] by (simp add: leaves_input_def)
  have 2: "fst (set_categorical_st stable_descending [df3] 0 ''group1'' (Some ''value'') np_sum False (Some 2) False ''_other'') = Inr 3"
    by code_simp
  have 3: "snd (drop_unused_levels_st [df3] 0 NoTargets) ! 0 = df3"
    using T [THEN conjunct2, THEN conjunct2, THEN conjunct1] by (simp add: leaves_input_def)
  have 4: "fst (drop_unused_levels_st [df3] 0 NoTargets) = Inr 1"
    by code_simp
  have 5: "snd (reverse_categories_st Replace [df3] 0 NoTargets) = [df3, df3_reversed]"
    by code_simp
  have 6: "fst (reverse_categories_st Replace [df3] 0 NoTargets) = Inr 1"
    by code_simp
  have 7: "snd (select_rows_st [df3] 0 (\<lambda>t. map (\<lambda>i. i < 3) (index t))) ! 0 = df3"
    using T [THEN conjunct2, THEN conjunct2, THEN conjunct2, THEN conjunct2, THEN conjunct2,
             THEN conjunct2, THEN conjunct1]
    by (simp add: leaves_input_def)
  have 8: "fst (select_rows_st [df3] 0 (\<lambda>t. map (\<lambda>i. i < 3) (index t))) = Inr 2"
    by code_simp
  show ?thesis
    by (intro conjI; fact)
qed

end
